theory Spec2Isabelle
  imports Main
begin

section \<open>Strings\<close>

text \<open>
  A JavaScript string is a sequence of UTF-16 code units. A code unit is modelled by its
  number, so that the character classes of the regular expressions (\<open>\s\<close>, \<open>.\<close>, \<open>\d\<close>,
  \<open>\b\<close>) range over every code unit a source text can hold and not only over ASCII.
  \<open>js ''abc''\<close> is the string with the code units of the ASCII literal.
\<close>

type_synonym jsstring = "nat list"

abbreviation js :: "string \<Rightarrow> jsstring" where
  "js s \<equiv> map of_char s"

section \<open>Lexer (lexer.js, and the Lexer class of main.js)\<close>

datatype token_type =
  FLOAT_LIT | INT_LIT | STRING_LIT | KEYWORD | IDENTIFIER | OPERATOR | SEPARATOR | MISMATCH

record token =
  ttype :: token_type
  tvalue :: jsstring
  tline :: nat
  tcol :: nat

datatype js_error = LexerError jsstring | TypeError

subsection \<open>Character classes of the regular expressions\<close>

text \<open>\<open>\d\<close>: the ten ASCII digits.\<close>

definition isDigit :: "nat \<Rightarrow> bool" where
  "isDigit c \<longleftrightarrow> 48 \<le> c \<and> c \<le> 57"

text \<open>\<open>[a-zA-Z_]\<close>, the first character of an identifier.\<close>

definition isIdentStart :: "nat \<Rightarrow> bool" where
  "isIdentStart c \<longleftrightarrow> (97 \<le> c \<and> c \<le> 122) \<or> (65 \<le> c \<and> c \<le> 90) \<or> c = 95"

text \<open>\<open>[a-zA-Z0-9_]\<close>: the later characters of an identifier, and the word characters
  that \<open>\b\<close> tells from the others.\<close>

definition isWordChar :: "nat \<Rightarrow> bool" where
  "isWordChar c \<longleftrightarrow> isIdentStart c \<or> isDigit c"

text \<open>The line terminators of ECMAScript: LF, CR, LS (U+2028) and PS (U+2029). The
  pattern \<open>.\<close> matches every code unit but these.\<close>

definition isLineTerminator :: "nat \<Rightarrow> bool" where
  "isLineTerminator c \<longleftrightarrow> c = 10 \<or> c = 13 \<or> c = 8232 \<or> c = 8233"

text \<open>\<open>\s\<close>: the white space of ECMAScript (TAB, VT, FF, SP, NBSP, ZWNBSP and the
  Unicode space separators) together with the line terminators.\<close>

definition isWhiteSpace :: "nat \<Rightarrow> bool" where
  "isWhiteSpace c \<longleftrightarrow>
     c = 9 \<or> c = 11 \<or> c = 12 \<or> c = 32 \<or> c = 160 \<or> c = 5760 \<or>
     (8192 \<le> c \<and> c \<le> 8202) \<or> c = 8239 \<or> c = 8287 \<or> c = 12288 \<or> c = 65279 \<or>
     isLineTerminator c"

subsection \<open>The token rules\<close>

text \<open>
  Each rule of \<open>tokenSpecs\<close> is a regular expression anchored at the start of the
  remaining code. A rule is modelled by the function that returns \<open>match[0]\<close>, the text
  matched there, or \<open>None\<close> when \<open>match\<close> returns \<open>null\<close>.
\<close>

text \<open>\<open>/^\d+\.\d+/\<close>. The first \<open>\d+\<close> is greedy; giving back a digit leaves a digit where
  the dot is wanted, so the rule matches exactly when the longest run of digits is followed
  by a dot and one more digit at least.\<close>

definition match_FLOAT_LIT :: "jsstring \<Rightarrow> jsstring option" where
  "match_FLOAT_LIT s =
     (let d1 = takeWhile isDigit s in
      if d1 = [] then None
      else (case dropWhile isDigit s of
              [] \<Rightarrow> None
            | c # r \<Rightarrow>
                (let d2 = takeWhile isDigit r in
                 if c = 46 \<and> d2 \<noteq> [] then Some (d1 @ [c] @ d2) else None)))"

text \<open>\<open>/^\d+/\<close>\<close>

definition match_INT_LIT :: "jsstring \<Rightarrow> jsstring option" where
  "match_INT_LIT s =
     (let d = takeWhile isDigit s in if d = [] then None else Some d)"

text \<open>\<open>/^"[^"]*"/\<close>: the negated class also matches line terminators.\<close>

definition match_STRING_LIT :: "jsstring \<Rightarrow> jsstring option" where
  "match_STRING_LIT s =
     (case s of
        [] \<Rightarrow> None
      | c # r \<Rightarrow>
          if c = 34 then
            (case dropWhile (\<lambda>x. x \<noteq> 34) r of
               [] \<Rightarrow> None
             | q # _ \<Rightarrow> Some (c # takeWhile (\<lambda>x. x \<noteq> 34) r @ [q]))
          else None)"

text \<open>\<open>/^\b(int|void|if|else|while|for|return|printf)\b/\<close>: the alternatives are tried
  in this order, and one is taken when the text that follows it does not go on with a word
  character. The leading \<open>\b\<close> holds wherever an alternative matches, since each starts
  with a letter at the start of the remaining code.\<close>

definition keyword_list :: "jsstring list" where
  "keyword_list = [js ''int'', js ''void'', js ''if'', js ''else'', js ''while'', js ''for'',
               js ''return'', js ''printf'']"

definition keyword_here :: "jsstring \<Rightarrow> jsstring \<Rightarrow> bool" where
  "keyword_here s k \<longleftrightarrow>
     take (length k) s = k \<and>
     (case drop (length k) s of [] \<Rightarrow> True | c # _ \<Rightarrow> \<not> isWordChar c)"

definition match_KEYWORD :: "jsstring \<Rightarrow> jsstring option" where
  "match_KEYWORD s = find (keyword_here s) keyword_list"

text \<open>\<open>/^[a-zA-Z_][a-zA-Z0-9_]*/\<close>\<close>

definition match_IDENTIFIER :: "jsstring \<Rightarrow> jsstring option" where
  "match_IDENTIFIER s =
     (case s of
        [] \<Rightarrow> None
      | c # r \<Rightarrow> if isIdentStart c then Some (c # takeWhile isWordChar r) else None)"

text \<open>\<open>/^(==|!=|<=|>=|&&|\|\||[+\-*/=<>!])/\<close>: the two-character operators first.\<close>

definition operators2 :: "jsstring list" where
  "operators2 = [js ''=='', js ''!='', js ''<='', js ''>='', js ''&&'', js ''||'']"

definition match_OPERATOR :: "jsstring \<Rightarrow> jsstring option" where
  "match_OPERATOR s =
     (case find (\<lambda>k. take 2 s = k) operators2 of
        Some k \<Rightarrow> Some k
      | None \<Rightarrow>
          (case s of
             [] \<Rightarrow> None
           | c # _ \<Rightarrow> if c \<in> set (js ''+-*/=<>!'') then Some [c] else None))"

text \<open>\<open>/^[\(\)\{\};,]/\<close>\<close>

definition match_SEPARATOR :: "jsstring \<Rightarrow> jsstring option" where
  "match_SEPARATOR s =
     (case s of
        [] \<Rightarrow> None
      | c # _ \<Rightarrow> if c \<in> set (js ''(){};,'') then Some [c] else None)"

text \<open>\<open>/^./\<close>: any one code unit that is not a line terminator.\<close>

definition match_MISMATCH :: "jsstring \<Rightarrow> jsstring option" where
  "match_MISMATCH s =
     (case s of
        [] \<Rightarrow> None
      | c # _ \<Rightarrow> if isLineTerminator c then None else Some [c])"

definition tokenSpecs :: "(token_type \<times> (jsstring \<Rightarrow> jsstring option)) list" where
  "tokenSpecs =
     [(FLOAT_LIT, match_FLOAT_LIT), (INT_LIT, match_INT_LIT),
      (STRING_LIT, match_STRING_LIT), (KEYWORD, match_KEYWORD),
      (IDENTIFIER, match_IDENTIFIER), (OPERATOR, match_OPERATOR),
      (SEPARATOR, match_SEPARATOR), (MISMATCH, match_MISMATCH)]"

text \<open>The inner \<open>for\<close> loop over the rules: the first rule that matches, with its text.\<close>

fun first_match ::
  "(token_type \<times> (jsstring \<Rightarrow> jsstring option)) list \<Rightarrow> jsstring \<Rightarrow>
   (token_type \<times> jsstring) option" where
  "first_match [] s = None"
| "first_match ((ty, rx) # specs) s =
     (case rx s of Some v \<Rightarrow> Some (ty, v) | None \<Rightarrow> first_match specs s)"

subsection \<open>White space and positions\<close>

text \<open>\<open>ws.lastIndexOf('\n')\<close>: the index of the last occurrence, \<open>-1\<close> when there is
  none.\<close>

definition lastIndexOf :: "jsstring \<Rightarrow> nat \<Rightarrow> int" where
  "lastIndexOf xs c =
     (if c \<in> set xs
      then int (length xs) - 1 - int (length (takeWhile (\<lambda>x. x \<noteq> c) (rev xs)))
      else - 1)"

text \<open>The position after the white space \<open>ws\<close> matched by \<open>/^\s+/\<close>.\<close>

definition after_ws :: "jsstring \<Rightarrow> nat \<times> nat \<Rightarrow> nat \<times> nat" where
  "after_ws ws lc =
     (let newlines = length (filter (\<lambda>c. c = 10) ws) in
      if newlines > 0
      then (fst lc + newlines, nat (int (length ws) - lastIndexOf ws 10))
      else (fst lc, snd lc + length ws))"

subsection \<open>tokenize\<close>

text \<open>
  The \<open>while\<close> loop of \<open>tokenize\<close>, on the remaining code, the position \<open>(line, col)\<close> and
  the tokens pushed so far. \<open>Inl (LexerError _)\<close> is the \<open>throw\<close> of the loop's last
  statement.
\<close>

function tokenize_loop ::
  "jsstring \<Rightarrow> nat \<times> nat \<Rightarrow> token list \<Rightarrow> js_error + token list" where
  "tokenize_loop remainingCode lc tokens =
     (if length remainingCode > 0 then
        (let ws = takeWhile isWhiteSpace remainingCode;
             lc1 = (if ws \<noteq> [] then after_ws ws lc else lc);
             rem1 = drop (length ws) remainingCode
         in if ws \<noteq> [] \<and> length rem1 = 0 then Inr tokens
            else (case first_match tokenSpecs rem1 of
                    Some (ty, v) \<Rightarrow>
                      tokenize_loop (drop (length v) rem1)
                        (fst lc1, snd lc1 + length v)
                        (tokens @ [\<lparr>ttype = ty, tvalue = v, tline = fst lc1, tcol = snd lc1\<rparr>])
                  | None \<Rightarrow>
                      if length rem1 > 0 then Inl (LexerError (take 10 rem1))
                      else Inr tokens))
      else Inr tokens)"
  by pat_completeness auto


text \<open>Every rule matches a non-empty prefix of the remaining code, so each round of the
  loop consumes at least one code unit.\<close>

lemma match_FLOAT_LIT_prefix:
  "match_FLOAT_LIT s = Some v \<Longrightarrow> v \<noteq> [] \<and> (\<exists>r. s = v @ r)"
  apply (auto simp: match_FLOAT_LIT_def Let_def split: if_splits list.splits)
  apply (metis takeWhile_dropWhile_id append.assoc append_Cons)
  done

lemma match_INT_LIT_prefix:
  "match_INT_LIT s = Some v \<Longrightarrow> v \<noteq> [] \<and> (\<exists>r. s = v @ r)"
  by (auto simp: match_INT_LIT_def Let_def split: if_splits) (metis takeWhile_dropWhile_id)

lemma match_STRING_LIT_prefix:
  "match_STRING_LIT s = Some v \<Longrightarrow> v \<noteq> [] \<and> (\<exists>r. s = v @ r)"
  apply (auto simp: match_STRING_LIT_def split: if_splits list.splits)
  apply (metis takeWhile_dropWhile_id)
  done

lemma find_SomeD: "find P xs = Some v \<Longrightarrow> v \<in> set xs \<and> P v"
  by (induction xs) (auto split: if_splits)

lemma match_KEYWORD_prefix:
  assumes "match_KEYWORD s = Some v"
  shows "v \<noteq> [] \<and> (\<exists>r. s = v @ r)"
proof -
  from assms have mem: "v \<in> set keyword_list" and here: "keyword_here s v"
    by (auto simp: match_KEYWORD_def dest: find_SomeD)
  from mem have "v \<noteq> []" by (auto simp: keyword_list_def)
  moreover from here have "s = v @ drop (length v) s"
    by (metis keyword_here_def append_take_drop_id)
  ultimately show ?thesis by blast
qed

lemma match_IDENTIFIER_prefix:
  "match_IDENTIFIER s = Some v \<Longrightarrow> v \<noteq> [] \<and> (\<exists>r. s = v @ r)"
  apply (auto simp: match_IDENTIFIER_def split: if_splits list.splits)
  apply (metis takeWhile_dropWhile_id)
  done

lemma match_OPERATOR_prefix:
  assumes "match_OPERATOR s = Some v"
  shows "v \<noteq> [] \<and> (\<exists>r. s = v @ r)"
proof (cases "find (\<lambda>k. take 2 s = k) operators2")
  case None
  with assms show ?thesis
    by (auto simp: match_OPERATOR_def split: list.splits if_splits)
next
  case (Some k)
  with assms have "v = k" by (simp add: match_OPERATOR_def)
  with Some have mem: "v \<in> set operators2" and tk: "take 2 s = v"
    by (auto dest: find_SomeD)
  from mem have "v \<noteq> []" by (auto simp: operators2_def)
  moreover from tk have "s = v @ drop 2 s" by (metis append_take_drop_id)
  ultimately show ?thesis by blast
qed

lemma match_SEPARATOR_prefix:
  "match_SEPARATOR s = Some v \<Longrightarrow> v \<noteq> [] \<and> (\<exists>r. s = v @ r)"
  by (auto simp: match_SEPARATOR_def split: if_splits list.splits)

lemma match_MISMATCH_prefix:
  "match_MISMATCH s = Some v \<Longrightarrow> v \<noteq> [] \<and> (\<exists>r. s = v @ r)"
  by (auto simp: match_MISMATCH_def split: if_splits list.splits)

lemmas match_prefix = match_FLOAT_LIT_prefix match_INT_LIT_prefix match_STRING_LIT_prefix
  match_KEYWORD_prefix match_IDENTIFIER_prefix match_OPERATOR_prefix match_SEPARATOR_prefix
  match_MISMATCH_prefix

lemma first_match_prefix:
  "first_match tokenSpecs s = Some (ty, v) \<Longrightarrow> v \<noteq> [] \<and> (\<exists>r. s = v @ r)"
  unfolding tokenSpecs_def
  by (auto split: option.splits dest: match_prefix)

termination tokenize_loop
proof (relation "measure (\<lambda>(r, lc, ts). length r)", goal_cases)
  case 1 show ?case by simp
next
  case (2 remainingCode lc tokens ws lc1 rem1 x2 ty v)
  from first_match_prefix[of rem1 ty v] 2 have "v \<noteq> []" "\<exists>r. rem1 = v @ r" by auto
  then obtain r where r: "rem1 = v @ r" by blast
  have "length rem1 \<le> length remainingCode" using 2 by simp
  moreover have "0 < length v" using \<open>v \<noteq> []\<close> by simp
  ultimately show ?case using r by (cases v) simp_all
qed


declare tokenize_loop.simps [simp del]

definition tokenize :: "jsstring \<Rightarrow> js_error + token list" where
  "tokenize code = tokenize_loop code (1, 1) []"

section \<open>Syntax trees (astNodes.js, and the node classes of main.js)\<close>

text \<open>
  One constructor for each node class. A child that the parser may leave \<open>null\<close> is an
  option. An \<open>IdentifierNode\<close> that is the name of a function, of a variable, of a
  parameter or of a call, or the left side of an assignment, is kept as the token it was
  built from: its \<open>name\<close> is the \<open>value\<close> of that token and its \<open>token.line\<close> is the line
  of that token. The class \<open>UnaryOpNode\<close> of astNodes.js is not among them: main.js
  does not have it, and no token of the lexer starts the statements \<open>i++;\<close> and \<open>i--;\<close>
  for which the parser of parser.js builds it.
\<close>

datatype param = ParamNode (paramType: jsstring) (paramName: token)

datatype node =
    ProgramNode "node list"
  | FunctionDefinitionNode jsstring token "param list" node
  | BlockNode "node list"
  | VariableDeclarationNode jsstring token "node option"
  | AssignmentNode token "node option"
  | BinaryOpNode "node option" jsstring "node option"
  | NumberNode token
  | IdentifierNode token
  | StringLiteralNode token
  | FunctionCallNode token "node option list"
  | IfStatementNode "node option" node "node option"
  | ForLoopNode "node option" "node option" "node option" node
  | ReturnStatementNode "node option"

text \<open>The decimal numeral of a number, as a template literal writes it.\<close>

function string_of_nat :: "nat \<Rightarrow> jsstring" where
  "string_of_nat n =
     (if n < 10 then [48 + n] else string_of_nat (n div 10) @ [48 + n mod 10])"
  by pat_completeness auto
termination
  by (relation "measure id") auto

declare string_of_nat.simps [simp del]

text \<open>A token with an ASCII text, for the examples.\<close>

definition tok :: "token_type \<Rightarrow> string \<Rightarrow> nat \<Rightarrow> nat \<Rightarrow> token" where
  "tok ty v l c = \<lparr>ttype = ty, tvalue = js v, tline = l, tcol = c\<rparr>"

section \<open>Parser (the Parser class of main.js)\<close>

text \<open>
  The two files parser.js hold variants of the parser of main.js, which is followed here.
  Both add to \<open>parseStatement\<close> a branch for an identifier followed by an operator \<open>++\<close>
  or \<open>--\<close>, which no token of the lexer is; one of them parses the increment clause of a
  \<open>for\<close> loop with \<open>parseExpression\<close>, and skips it before a closing parenthesis.
  \<open>expect\<close>, \<open>parseBlock\<close>, \<open>recover\<close>, \<open>parseAssignment\<close>, \<open>parseFunctionDefinition\<close>
  and \<open>parse\<close> are the same in the three.
\<close>

text \<open>The state of a \<open>Parser\<close>: the tokens, the position and the messages of the syntax
  errors pushed so far (an error is an object with the one field \<open>message\<close>).\<close>

record pstate =
  tokens :: "token list"
  pos :: nat
  perrors :: "jsstring list"

definition currentToken :: "pstate \<Rightarrow> token option" where
  "currentToken s = (if pos s < length (tokens s) then Some (tokens s ! pos s) else None)"

definition advance :: "pstate \<Rightarrow> pstate" where
  "advance s = s\<lparr>pos := pos s + 1\<rparr>"

text \<open>\<open>this.currentToken()?.value\<close> and \<open>this.tokens[this.pos + 1]?.value\<close>: \<open>None\<close> is
  \<open>undefined\<close>, which is equal to no string.\<close>

definition currentValue :: "pstate \<Rightarrow> jsstring option" where
  "currentValue s = map_option tvalue (currentToken s)"

definition nextValue :: "pstate \<Rightarrow> jsstring option" where
  "nextValue s =
     (if pos s + 1 < length (tokens s) then Some (tvalue (tokens s ! (pos s + 1))) else None)"

text \<open>The \<open>type\<close> of a token is the name of its kind.\<close>

fun type_name :: "token_type \<Rightarrow> jsstring" where
  "type_name FLOAT_LIT = js ''FLOAT_LIT''"
| "type_name INT_LIT = js ''INT_LIT''"
| "type_name STRING_LIT = js ''STRING_LIT''"
| "type_name KEYWORD = js ''KEYWORD''"
| "type_name IDENTIFIER = js ''IDENTIFIER''"
| "type_name OPERATOR = js ''OPERATOR''"
| "type_name SEPARATOR = js ''SEPARATOR''"
| "type_name MISMATCH = js ''MISMATCH''"

text \<open>\<open>error(m, t)\<close>: the token is \<open>t\<close>, or the current token when \<open>t\<close> is missing or
  \<open>null\<close>.\<close>

definition parser_error :: "jsstring \<Rightarrow> token option \<Rightarrow> pstate \<Rightarrow> pstate" where
  "parser_error m t s =
     (let tok = (case t of Some x \<Rightarrow> Some x | None \<Rightarrow> currentToken s);
          i = (case tok of
                 Some x \<Rightarrow> js ''at line '' @ string_of_nat (tline x)
               | None \<Rightarrow> js ''at EOF'');
          s1 = s\<lparr>perrors := perrors s @ [js ''Syntax Error: '' @ m @ js '' '' @ i]\<rparr>
      in if tok \<noteq> None then advance s1 else s1)"

text \<open>\<open>expect(ty, v = null)\<close>\<close>

definition expect :: "token_type \<Rightarrow> jsstring option \<Rightarrow> pstate \<Rightarrow> token option \<times> pstate" where
  "expect ty v s =
     (let t = currentToken s in
      case t of
        Some x \<Rightarrow>
          if ttype x = ty \<and> (v = None \<or> Some (tvalue x) = v) then (Some x, advance s)
          else (None, parser_error (js ''Expected '' @ (case v of Some w \<Rightarrow> w | None \<Rightarrow> type_name ty)) t s)
      | None \<Rightarrow>
          (None, parser_error (js ''Expected '' @ (case v of Some w \<Rightarrow> w | None \<Rightarrow> type_name ty)) t s))"

text \<open>\<open>recover()\<close>: the loop skips the tokens up to the first \<open>;\<close> or \<open>}\<close>, or to the end
  of the tokens; a \<open>;\<close> found there is consumed.\<close>

function recover_loop :: "pstate \<Rightarrow> pstate" where
  "recover_loop s =
     (case currentToken s of
        Some t \<Rightarrow>
          if tvalue t \<noteq> js '';'' \<and> tvalue t \<noteq> js ''}'' then recover_loop (advance s) else s
      | None \<Rightarrow> s)"
  by pat_completeness auto
termination
  by (relation "measure (\<lambda>s. length (tokens s) - pos s)")
     (auto simp: currentToken_def advance_def split: if_splits)

declare recover_loop.simps [simp del]

definition recover :: "pstate \<Rightarrow> pstate" where
  "recover s =
     (let s1 = recover_loop s in
      if currentValue s1 = Some (js '';'') then advance s1 else s1)"

text \<open>\<open>new IdentifierNode(t)\<close> reads \<open>t.value\<close>: with \<open>t\<close> \<open>null\<close> it throws a
  \<open>TypeError\<close>.\<close>

definition newIdentifierNode :: "token option \<Rightarrow> js_error + token" where
  "newIdentifierNode t = (case t of None \<Rightarrow> Inl TypeError | Some x \<Rightarrow> Inr x)"

text \<open>
  The parsing methods call each other recursively on the state, and their loops run as
  long as tokens of some kind follow. They are defined with a bound \<open>n\<close> on the nesting
  of the expressions and of the blocks and on the rounds of each loop: \<open>None\<close> says that
  the bound was reached. Otherwise the result is \<open>Inl\<close> of the exception thrown or \<open>Inr\<close>
  of the value returned and the state.

  The recursion goes through two methods, \<open>parseExpression\<close> (from \<open>parsePrimary\<close> and
  from the argument lists) and \<open>parseBlock\<close> (from the if-statements and the loops). A
  method that calls one of them from below takes it as a parameter, \<open>pe\<close> for
  \<open>this.parseExpression\<close> and \<open>pb\<close> for \<open>this.parseBlock\<close>; \<open>parseExpression\<close> and
  \<open>parseBlock\<close> themselves are then defined by recursion on the bound.
\<close>

type_synonym 'a presult = "(js_error + 'a \<times> pstate) option"

definition pret :: "'a \<Rightarrow> pstate \<Rightarrow> 'a presult" where
  "pret a s = Some (Inr (a, s))"

definition pthrow :: "js_error \<Rightarrow> 'a presult" where
  "pthrow e = Some (Inl e)"

definition pbind :: "'a presult \<Rightarrow> ('a \<Rightarrow> pstate \<Rightarrow> 'b presult) \<Rightarrow> 'b presult" where
  "pbind m f =
     (case m of
        None \<Rightarrow> None
      | Some (Inl e) \<Rightarrow> Some (Inl e)
      | Some (Inr (a, s)) \<Rightarrow> f a s)"

lemma pbind_simps [simp]:
  "pbind None f = None"
  "pbind (pthrow e) f = pthrow e"
  "pbind (Some (Inl e)) f = Some (Inl e)"
  "pbind (pret a s) f = f a s"
  "pbind (Some (Inr (a, s))) f = f a s"
  by (simp_all add: pbind_def pret_def pthrow_def)

lemma pbind_cong [fundef_cong]:
  "m = m' \<Longrightarrow> (\<And>a s. m' = Some (Inr (a, s)) \<Longrightarrow> f a s = f' a s) \<Longrightarrow> pbind m f = pbind m' f'"
  by (auto simp: pbind_def split: option.splits sum.splits)

text \<open>The operators of the three levels that test the kind of the token.\<close>

definition comparison_ops :: "jsstring list" where
  "comparison_ops = [js ''<'', js ''>'', js ''=='', js ''!='', js ''<='', js ''>='']"

definition isOperatorIn :: "jsstring list \<Rightarrow> pstate \<Rightarrow> bool" where
  "isOperatorIn ops s =
     (case currentToken s of
        Some t \<Rightarrow> ttype t = OPERATOR \<and> tvalue t \<in> set ops
      | None \<Rightarrow> False)"


subsection \<open>Expressions\<close>

type_synonym expr_parser = "pstate \<Rightarrow> (node option) presult"

text \<open>The argument list of a call, up to the closing parenthesis: the code of
  \<open>parseFunctionCallStatement\<close> and of \<open>parseFunctionCallExpression\<close> between their
  two \<open>expect\<close> of the parentheses.\<close>

fun parseArguments_loop ::
  "expr_parser \<Rightarrow> nat \<Rightarrow> node option list \<Rightarrow> pstate \<Rightarrow> (node option list) presult" where
  "parseArguments_loop pe 0 a s = None"
| "parseArguments_loop pe (Suc n) a s =
     (if currentValue s = Some (js '','') then
        pbind (pe (advance s)) (\<lambda>x s1. parseArguments_loop pe n (a @ [x]) s1)
      else pret a s)"

definition parseArguments :: "expr_parser \<Rightarrow> nat \<Rightarrow> pstate \<Rightarrow> (node option list) presult" where
  "parseArguments pe n s =
     (if currentValue s \<noteq> Some (js '')'') then
        pbind (pe s) (\<lambda>a s1. parseArguments_loop pe n [a] s1)
      else pret [] s)"

definition parseFunctionCallExpression :: "expr_parser \<Rightarrow> nat \<Rightarrow> pstate \<Rightarrow> (node option) presult" where
  "parseFunctionCallExpression pe n s =
     (let (nameToken, s1) = expect IDENTIFIER None s;
          (_, s2) = expect SEPARATOR (Some (js ''('')) s1
      in pbind (parseArguments pe n s2) (\<lambda>args s3.
           let (_, s4) = expect SEPARATOR (Some (js '')'')) s3 in
           case newIdentifierNode nameToken of
             Inl e \<Rightarrow> pthrow e
           | Inr nm \<Rightarrow> pret (Some (FunctionCallNode nm args)) s4))"

text \<open>\<open>t.type.endsWith('_LIT')\<close> holds for the three kinds of literals; the string
  literals have been taken before.\<close>

definition parsePrimary :: "expr_parser \<Rightarrow> nat \<Rightarrow> pstate \<Rightarrow> (node option) presult" where
  "parsePrimary pe n s =
     (case currentToken s of
        None \<Rightarrow> pret None (parser_error (js ''Unexpected EOF'') None s)
      | Some t \<Rightarrow>
          if ttype t = IDENTIFIER \<and> nextValue s = Some (js ''('')
            then parseFunctionCallExpression pe n s
          else if ttype t = STRING_LIT then pret (Some (StringLiteralNode t)) (advance s)
          else if ttype t = FLOAT_LIT \<or> ttype t = INT_LIT \<or> ttype t = STRING_LIT
            then pret (Some (NumberNode t)) (advance s)
          else if ttype t = IDENTIFIER then pret (Some (IdentifierNode t)) (advance s)
          else if tvalue t = js ''('' then
            pbind (pe (advance s)) (\<lambda>nd s1.
              let (_, s2) = expect SEPARATOR (Some (js '')'')) s1 in pret nd s2)
          else pret None (parser_error (js ''Invalid primary expression'') None s))"

fun parseFactor_loop ::
  "expr_parser \<Rightarrow> nat \<Rightarrow> node option \<Rightarrow> pstate \<Rightarrow> (node option) presult" where
  "parseFactor_loop pe 0 nd s = None"
| "parseFactor_loop pe (Suc n) nd s =
     (if isOperatorIn [js ''*'', js ''/''] s then
        (case currentToken s of
           None \<Rightarrow> pthrow TypeError
         | Some o' \<Rightarrow>
             pbind (parsePrimary pe n (advance s)) (\<lambda>r s1.
               parseFactor_loop pe n (Some (BinaryOpNode nd (tvalue o') r)) s1))
      else pret nd s)"

definition parseFactor :: "expr_parser \<Rightarrow> nat \<Rightarrow> pstate \<Rightarrow> (node option) presult" where
  "parseFactor pe n s = pbind (parsePrimary pe n s) (parseFactor_loop pe n)"

fun parseTerm_loop ::
  "expr_parser \<Rightarrow> nat \<Rightarrow> node option \<Rightarrow> pstate \<Rightarrow> (node option) presult" where
  "parseTerm_loop pe 0 nd s = None"
| "parseTerm_loop pe (Suc n) nd s =
     (if isOperatorIn [js ''+'', js ''-''] s then
        (case currentToken s of
           None \<Rightarrow> pthrow TypeError
         | Some o' \<Rightarrow>
             pbind (parseFactor pe n (advance s)) (\<lambda>r s1.
               parseTerm_loop pe n (Some (BinaryOpNode nd (tvalue o') r)) s1))
      else pret nd s)"

definition parseTerm :: "expr_parser \<Rightarrow> nat \<Rightarrow> pstate \<Rightarrow> (node option) presult" where
  "parseTerm pe n s = pbind (parseFactor pe n s) (parseTerm_loop pe n)"

fun parseComparison_loop ::
  "expr_parser \<Rightarrow> nat \<Rightarrow> node option \<Rightarrow> pstate \<Rightarrow> (node option) presult" where
  "parseComparison_loop pe 0 nd s = None"
| "parseComparison_loop pe (Suc n) nd s =
     (if isOperatorIn comparison_ops s then
        (case currentToken s of
           None \<Rightarrow> pthrow TypeError
         | Some o' \<Rightarrow>
             pbind (parseTerm pe n (advance s)) (\<lambda>r s1.
               parseComparison_loop pe n (Some (BinaryOpNode nd (tvalue o') r)) s1))
      else pret nd s)"

definition parseComparison :: "expr_parser \<Rightarrow> nat \<Rightarrow> pstate \<Rightarrow> (node option) presult" where
  "parseComparison pe n s = pbind (parseTerm pe n s) (parseComparison_loop pe n)"

fun parseLogicalAnd_loop ::
  "expr_parser \<Rightarrow> nat \<Rightarrow> node option \<Rightarrow> pstate \<Rightarrow> (node option) presult" where
  "parseLogicalAnd_loop pe 0 nd s = None"
| "parseLogicalAnd_loop pe (Suc n) nd s =
     (if currentValue s = Some (js ''&&'') then
        (case currentToken s of
           None \<Rightarrow> pthrow TypeError
         | Some o' \<Rightarrow>
             pbind (parseComparison pe n (advance s)) (\<lambda>r s1.
               parseLogicalAnd_loop pe n (Some (BinaryOpNode nd (tvalue o') r)) s1))
      else pret nd s)"

definition parseLogicalAnd :: "expr_parser \<Rightarrow> nat \<Rightarrow> pstate \<Rightarrow> (node option) presult" where
  "parseLogicalAnd pe n s = pbind (parseComparison pe n s) (parseLogicalAnd_loop pe n)"

fun parseLogicalOr_loop ::
  "expr_parser \<Rightarrow> nat \<Rightarrow> node option \<Rightarrow> pstate \<Rightarrow> (node option) presult" where
  "parseLogicalOr_loop pe 0 nd s = None"
| "parseLogicalOr_loop pe (Suc n) nd s =
     (if currentValue s = Some (js ''||'') then
        (case currentToken s of
           None \<Rightarrow> pthrow TypeError
         | Some o' \<Rightarrow>
             pbind (parseLogicalAnd pe n (advance s)) (\<lambda>r s1.
               parseLogicalOr_loop pe n (Some (BinaryOpNode nd (tvalue o') r)) s1))
      else pret nd s)"

definition parseLogicalOr :: "expr_parser \<Rightarrow> nat \<Rightarrow> pstate \<Rightarrow> (node option) presult" where
  "parseLogicalOr pe n s = pbind (parseLogicalAnd pe n s) (parseLogicalOr_loop pe n)"

primrec parseExpression :: "nat \<Rightarrow> pstate \<Rightarrow> (node option) presult" where
  "parseExpression 0 = (\<lambda>s. None)"
| "parseExpression (Suc n) = parseLogicalOr (parseExpression n) n"

subsection \<open>Statements\<close>

type_synonym block_parser = "pstate \<Rightarrow> node presult"

definition parseVariableDeclaration :: "nat \<Rightarrow> pstate \<Rightarrow> (node option) presult" where
  "parseVariableDeclaration n s =
     (let (t, s1) = expect KEYWORD None s;
          (nm, s2) = expect IDENTIFIER None s1
      in case (t, nm) of
           (Some t', Some nm') \<Rightarrow>
             pbind (if currentValue s2 = Some (js ''='') then parseExpression n (advance s2)
                    else pret None s2) (\<lambda>v s3.
               let (_, s4) = expect SEPARATOR (Some (js '';'')) s3 in
               pret (Some (VariableDeclarationNode (tvalue t') nm' v)) s4)
         | _ \<Rightarrow> pret None s2)"

definition parseAssignment :: "nat \<Rightarrow> bool \<Rightarrow> pstate \<Rightarrow> (node option) presult" where
  "parseAssignment n noSemicolon s =
     (let (t, s1) = expect IDENTIFIER None s in
      case newIdentifierNode t of
        Inl e \<Rightarrow> pthrow e
      | Inr l \<Rightarrow>
          (let (_, s2) = expect OPERATOR (Some (js ''='')) s1 in
           pbind (parseExpression n s2) (\<lambda>r s3.
             let s4 = (if \<not> noSemicolon then snd (expect SEPARATOR (Some (js '';'')) s3) else s3)
             in pret (Some (AssignmentNode l r)) s4)))"

definition parseFunctionCallStatement :: "nat \<Rightarrow> pstate \<Rightarrow> (node option) presult" where
  "parseFunctionCallStatement n s =
     (case currentToken s of
        None \<Rightarrow> pthrow TypeError
      | Some nm \<Rightarrow>
          if ttype nm \<noteq> IDENTIFIER \<and> ttype nm \<noteq> KEYWORD
          then pret None (parser_error (js ''Expected function name'') None s)
          else
            (let (_, s1) = expect SEPARATOR (Some (js ''('')) (advance s) in
             pbind (parseArguments (parseExpression n) n s1) (\<lambda>a s2.
               let (_, s3) = expect SEPARATOR (Some (js '')'')) s2;
                   (_, s4) = expect SEPARATOR (Some (js '';'')) s3
               in pret (Some (FunctionCallNode nm a)) s4)))"

definition parseIfStatement :: "block_parser \<Rightarrow> nat \<Rightarrow> pstate \<Rightarrow> (node option) presult" where
  "parseIfStatement pb n s =
     (let (_, s1) = expect KEYWORD (Some (js ''if'')) s;
          (_, s2) = expect SEPARATOR (Some (js ''('')) s1
      in pbind (parseExpression n s2) (\<lambda>c s3.
           let (_, s4) = expect SEPARATOR (Some (js '')'')) s3 in
           pbind (pb s4) (\<lambda>ib s5.
             if currentValue s5 = Some (js ''else'') then
               pbind (pb (advance s5)) (\<lambda>eb s6.
                 pret (Some (IfStatementNode c ib (Some eb))) s6)
             else pret (Some (IfStatementNode c ib None)) s5)))"

definition parseForLoop :: "block_parser \<Rightarrow> nat \<Rightarrow> pstate \<Rightarrow> (node option) presult" where
  "parseForLoop pb n s =
     (let (_, s1) = expect KEYWORD (Some (js ''for'')) s;
          (_, s2) = expect SEPARATOR (Some (js ''('')) s1
      in pbind (parseVariableDeclaration n s2) (\<lambda>init s3.
         pbind (parseExpression n s3) (\<lambda>cond s4.
           let (_, s5) = expect SEPARATOR (Some (js '';'')) s4 in
           pbind (parseAssignment n True s5) (\<lambda>inc s6.
             let (_, s7) = expect SEPARATOR (Some (js '')'')) s6 in
             pbind (pb s7) (\<lambda>body s8.
               pret (Some (ForLoopNode init cond inc body)) s8)))))"

definition parseReturnStatement :: "nat \<Rightarrow> pstate \<Rightarrow> (node option) presult" where
  "parseReturnStatement n s =
     (let (_, s1) = expect KEYWORD (Some (js ''return'')) s in
      pbind (if currentValue s1 \<noteq> Some (js '';'') then parseExpression n s1
             else pret None s1) (\<lambda>v s2.
        let (_, s3) = expect SEPARATOR (Some (js '';'')) s2 in
        pret (Some (ReturnStatementNode v)) s3))"

definition parseStatement :: "block_parser \<Rightarrow> nat \<Rightarrow> pstate \<Rightarrow> (node option) presult" where
  "parseStatement pb n s =
     (case currentToken s of
        None \<Rightarrow> pret None s
      | Some t \<Rightarrow>
          if ttype t = KEYWORD \<and> tvalue t = js ''int'' then parseVariableDeclaration n s
          else if ttype t = KEYWORD \<and> tvalue t = js ''if'' then parseIfStatement pb n s
          else if ttype t = KEYWORD \<and> tvalue t = js ''for'' then parseForLoop pb n s
          else if ttype t = KEYWORD \<and> tvalue t = js ''return'' then parseReturnStatement n s
          else if (ttype t = IDENTIFIER \<or> tvalue t = js ''printf'') \<and>
                  nextValue s = Some (js ''('')
            then parseFunctionCallStatement n s
          else if (ttype t = IDENTIFIER \<or> tvalue t = js ''printf'') \<and>
                  nextValue s = Some (js ''='')
            then parseAssignment n False s
          else pret None (parser_error (js ''Invalid statement'') None s))"

text \<open>The \<open>while\<close> loop of \<open>parseBlock\<close>, with the statements pushed so far.\<close>

fun parseBlock_loop ::
  "block_parser \<Rightarrow> nat \<Rightarrow> node list \<Rightarrow> pstate \<Rightarrow> (node list) presult" where
  "parseBlock_loop pb 0 stmts s = None"
| "parseBlock_loop pb (Suc n) stmts s =
     (if currentToken s \<noteq> None \<and> currentValue s \<noteq> Some (js ''}'') then
        pbind (parseStatement pb n s) (\<lambda>st s1.
          case st of
            Some x \<Rightarrow> parseBlock_loop pb n (stmts @ [x]) s1
          | None \<Rightarrow>
              if length (perrors s1) > 0 then parseBlock_loop pb n stmts (recover s1)
              else parseBlock_loop pb n stmts s1)
      else pret stmts s)"

primrec parseBlock :: "nat \<Rightarrow> pstate \<Rightarrow> node presult" where
  "parseBlock 0 = (\<lambda>s. None)"
| "parseBlock (Suc n) =
     (\<lambda>s. let (_, s1) = expect SEPARATOR (Some (js ''{'')) s in
          pbind (parseBlock_loop (parseBlock n) n [] s1) (\<lambda>stmts s2.
            let (_, s3) = expect SEPARATOR (Some (js ''}'')) s2 in
            pret (BlockNode stmts) s3))"

subsection \<open>Functions and the program\<close>

text \<open>The \<open>do\<close> loop over the parameters of a function definition.\<close>

fun parseParams_loop :: "nat \<Rightarrow> param list \<Rightarrow> pstate \<Rightarrow> (param list) presult" where
  "parseParams_loop 0 params s = None"
| "parseParams_loop (Suc n) params s =
     (let (paramType, s1) = expect KEYWORD None s;
          (paramName, s2) = expect IDENTIFIER None s1;
          params1 = (case (paramType, paramName) of
                       (Some pt, Some pn) \<Rightarrow> params @ [ParamNode (tvalue pt) pn]
                     | _ \<Rightarrow> params)
      in if currentValue s2 \<noteq> Some (js '','') then pret params1 s2
         else parseParams_loop n params1 (advance s2))"

definition parseFunctionDefinition :: "nat \<Rightarrow> pstate \<Rightarrow> (node option) presult" where
  "parseFunctionDefinition n s =
     (let (type, s1) = expect KEYWORD None s;
          (nm, s2) = expect IDENTIFIER None s1
      in case (type, nm) of
           (Some ty, Some nm') \<Rightarrow>
             (let (_, s3) = expect SEPARATOR (Some (js ''('')) s2 in
              pbind (if currentValue s3 \<noteq> Some (js '')'') then parseParams_loop n [] s3
                     else pret [] s3) (\<lambda>params s4.
                let (_, s5) = expect SEPARATOR (Some (js '')'')) s4 in
                pbind (parseBlock n s5) (\<lambda>body s6.
                  pret (Some (FunctionDefinitionNode (tvalue ty) nm' params body)) s6)))
         | _ \<Rightarrow> pret None s2)"

text \<open>The \<open>while\<close> loop of \<open>parse\<close>, with the functions pushed so far.\<close>

fun parse_loop :: "nat \<Rightarrow> node list \<Rightarrow> pstate \<Rightarrow> (node list) presult" where
  "parse_loop 0 functions s = None"
| "parse_loop (Suc n) functions s =
     (if currentToken s \<noteq> None then
        pbind (parseFunctionDefinition n s) (\<lambda>func s1.
          case func of
            Some f \<Rightarrow> parse_loop n (functions @ [f]) s1
          | None \<Rightarrow>
              if length (perrors s1) > 0 then pret functions s1
              else parse_loop n functions s1)
      else pret functions s)"

text \<open>\<open>new Parser(t).parse()\<close>: the result \<open>{ ast, errors }\<close>, or the exception thrown.\<close>

definition parse :: "nat \<Rightarrow> token list \<Rightarrow> (js_error + node \<times> jsstring list) option" where
  "parse n t =
     (case parse_loop n [] \<lparr>tokens = t, pos = 0, perrors = []\<rparr> of
        None \<Rightarrow> None
      | Some (Inl e) \<Rightarrow> Some (Inl e)
      | Some (Inr (functions, s)) \<Rightarrow> Some (Inr (ProgramNode functions, perrors s)))"

section \<open>Semantic analysis (the SymbolTable and SemanticAnalyzer classes of main.js)\<close>

text \<open>
  The two files semantic.js hold the same two classes as main.js, which is followed here.
  Their \<open>error\<close> reads \<open>node.token.line\<close> where main.js reads \<open>node.token?.line\<close>; every
  node that \<open>error\<close> is given is an \<open>IdentifierNode\<close>, which has its token.
\<close>

subsection \<open>Symbol tables\<close>

text \<open>The entry \<open>{ type, params }\<close> that \<open>define\<close> stores for a name.\<close>

record symbol =
  stype :: jsstring
  sparams :: "param list"

text \<open>
  The symbols of a scope are a plain object, \<open>this.symbols = {}\<close>, read with
  \<open>this.symbols[name]\<close>. What such a read returns is the scope's own entry for the name
  or, when it has none, the property that every object inherits from
  \<open>Object.prototype\<close> under that name. The own entries are kept in the order in which
  they were stored.
\<close>

definition object_prototype_keys :: "jsstring list" where
  "object_prototype_keys =
     [js ''constructor'', js ''__defineGetter__'', js ''__defineSetter__'',
      js ''hasOwnProperty'', js ''__lookupGetter__'', js ''__lookupSetter__'',
      js ''isPrototypeOf'', js ''propertyIsEnumerable'', js ''toString'', js ''valueOf'',
      js ''__proto__'', js ''toLocaleString'']"

datatype property = Own symbol | Inherited

definition symbols_get :: "(jsstring \<times> symbol) list \<Rightarrow> jsstring \<Rightarrow> property option" where
  "symbols_get syms name =
     (case map_of syms name of
        Some entry \<Rightarrow> Some (Own entry)
      | None \<Rightarrow> if name \<in> set object_prototype_keys then Some Inherited else None)"

text \<open>
  A \<open>SymbolTable\<close>. The tables of one run are the elements of \<open>this.scopes\<close>, and a
  reference to a table (\<open>parent\<close>, \<open>currentScope\<close>, \<open>globalScope\<close>) is its index in that
  list; \<open>None\<close> is \<open>null\<close>.
\<close>

record scope =
  name :: jsstring
  parent :: "nat option"
  symbols :: "(jsstring \<times> symbol) list"

text \<open>\<open>define(name, type, params = [])\<close> of a table: every value that \<open>this.symbols[name]\<close> can hold is
  an object or a function, so the test \<open>if (this.symbols[name])\<close> succeeds exactly when
  the read returns something.\<close>

definition define_symbol :: "jsstring \<Rightarrow> jsstring \<Rightarrow> param list \<Rightarrow> scope \<Rightarrow> bool \<times> scope" where
  "define_symbol nm ty ps sc =
     (if symbols_get (symbols sc) nm \<noteq> None then (False, sc)
      else (True, sc\<lparr>symbols := symbols sc @ [(nm, \<lparr>stype = ty, sparams = ps\<rparr>)]\<rparr>))"

text \<open>
  \<open>lookup(name)\<close> walks from a table up through the parents. \<open>enterScope\<close> pushes a new
  table behind its parent, so a parent has a smaller index than its child; the walk
  follows a parent reference of this kind and otherwise ends.
\<close>

function lookup :: "scope list \<Rightarrow> nat \<Rightarrow> jsstring \<Rightarrow> property option" where
  "lookup scs i nm =
     (case symbols_get (symbols (scs ! i)) nm of
        Some v \<Rightarrow> Some v
      | None \<Rightarrow>
          (case parent (scs ! i) of
             None \<Rightarrow> None
           | Some p \<Rightarrow> if p < i then lookup scs p nm else None))"
  by pat_completeness auto
termination
  by (relation "measure (\<lambda>(scs, i, nm). i)") auto

declare lookup.simps [simp del]

subsection \<open>The analyzer\<close>

record sem_error =
  message :: jsstring
  line :: nat

text \<open>The state of a \<open>SemanticAnalyzer\<close>. \<open>globalScope\<close> is the table at index 0.\<close>

record astate =
  scopes :: "scope list"
  currentScope :: "nat option"
  errors :: "sem_error list"

definition globalScope :: nat where
  "globalScope = 0"

text \<open>The state that the constructor leaves.\<close>

definition initial_astate :: astate where
  "initial_astate =
     \<lparr>scopes = [\<lparr>name = js ''global'', parent = None,
                 symbols = [(js ''printf'', \<lparr>stype = js ''function'', sparams = []\<rparr>)]\<rparr>],
      currentScope = Some globalScope,
      errors = []\<rparr>"

text \<open>\<open>error(message, node)\<close>, for a node with the token \<open>t\<close>.\<close>

definition sem_error :: "jsstring \<Rightarrow> token \<Rightarrow> astate \<Rightarrow> astate" where
  "sem_error msg t s =
     s\<lparr>errors := errors s @ [\<lparr>message = js ''Semantic Error: '' @ msg, line = tline t\<rparr>]\<rparr>"

definition enterScope :: "jsstring \<Rightarrow> astate \<Rightarrow> astate" where
  "enterScope nm s =
     s\<lparr>scopes := scopes s @ [\<lparr>name = nm, parent = currentScope s, symbols = []\<rparr>],
       currentScope := Some (length (scopes s))\<rparr>"

text \<open>A statement that reads a property of \<open>this.currentScope\<close> throws a \<open>TypeError\<close> when
  the current scope is \<open>null\<close>.\<close>

definition exitScope :: "astate \<Rightarrow> js_error + astate" where
  "exitScope s =
     (case currentScope s of
        None \<Rightarrow> Inl TypeError
      | Some c \<Rightarrow> Inr (s\<lparr>currentScope := parent (scopes s ! c)\<rparr>))"

text \<open>\<open>scope.define(name, type, params)\<close> on the table at index \<open>i\<close>.\<close>

definition define_at :: "nat \<Rightarrow> jsstring \<Rightarrow> jsstring \<Rightarrow> param list \<Rightarrow> astate \<Rightarrow> bool \<times> astate" where
  "define_at i nm ty ps s =
     (let (defined, sc) = define_symbol nm ty ps (scopes s ! i)
      in (defined, s\<lparr>scopes := (scopes s)[i := sc]\<rparr>))"

text \<open>\<open>this.currentScope.define(name, type)\<close>\<close>

definition define_current :: "jsstring \<Rightarrow> jsstring \<Rightarrow> astate \<Rightarrow> js_error + bool \<times> astate" where
  "define_current nm ty s =
     (case currentScope s of
        None \<Rightarrow> Inl TypeError
      | Some c \<Rightarrow> Inr (define_at c nm ty [] s))"

text \<open>\<open>this.currentScope.lookup(name)\<close>\<close>

definition lookup_current :: "jsstring \<Rightarrow> astate \<Rightarrow> js_error + property option" where
  "lookup_current nm s =
     (case currentScope s of
        None \<Rightarrow> Inl TypeError
      | Some c \<Rightarrow> Inr (lookup (scopes s) c nm))"

text \<open>\<open>node.params.forEach(p => this.currentScope.define(p.paramName.name, p.paramType))\<close>\<close>

fun define_params :: "param list \<Rightarrow> astate \<Rightarrow> js_error + astate" where
  "define_params [] s = Inr s"
| "define_params (p # ps) s =
     (case define_current (tvalue (paramName p)) (paramType p) s of
        Inl e \<Rightarrow> Inl e
      | Inr (_, s1) \<Rightarrow> define_params ps s1)"

text \<open>Sequencing: the statement after a call runs when the call has not thrown.\<close>

definition and_then :: "js_error + 'a \<Rightarrow> ('a \<Rightarrow> js_error + 'b) \<Rightarrow> js_error + 'b" where
  "and_then m f = (case m of Inl e \<Rightarrow> Inl e | Inr a \<Rightarrow> f a)"

lemma and_then_cong [fundef_cong]:
  "m = m' \<Longrightarrow> (\<And>a. m' = Inr a \<Longrightarrow> f a = f' a) \<Longrightarrow> and_then m f = and_then m' f'"
  by (auto simp: and_then_def split: sum.splits)

lemma and_then_simps [simp]:
  "and_then (Inl e) f = Inl e"
  "and_then (Inr a) f = f a"
  by (simp_all add: and_then_def)

text \<open>\<open>visitIdentifierNode\<close>, for an identifier with the token \<open>t\<close>.\<close>

definition visitIdentifierNode :: "token \<Rightarrow> astate \<Rightarrow> js_error + astate" where
  "visitIdentifierNode t s =
     and_then (lookup_current (tvalue t) s) (\<lambda>found.
       Inr (if found = None
            then sem_error (js ''Undeclared variable '' @ [39] @ tvalue t @ [39] @ js ''.'') t s
            else s))"

text \<open>The first statements of \<open>visitFunctionDefinitionNode\<close>, up to the visit of the
  body: the name is defined in the global scope, the scope of the function is entered
  and the parameters are defined in it.\<close>

definition function_header :: "token \<Rightarrow> param list \<Rightarrow> astate \<Rightarrow> js_error + astate" where
  "function_header nm ps s =
     (let (defined, s1) = define_at globalScope (tvalue nm) (js ''function'') ps s;
          s2 = (if \<not> defined
                then sem_error (js ''Function '' @ [39] @ tvalue nm @ [39] @ js '' already defined.'') nm s1
                else s1)
      in define_params ps (enterScope (tvalue nm) s2))"

text \<open>The first statement of \<open>visitVariableDeclarationNode\<close>.\<close>

definition declare_variable :: "token \<Rightarrow> astate \<Rightarrow> js_error + astate" where
  "declare_variable nm s =
     and_then (define_current (tvalue nm) (js ''variable'') s) (\<lambda>(defined, s1).
       Inr (if \<not> defined
            then sem_error (js ''Variable '' @ [39] @ tvalue nm @ [39] @ js '' already declared.'') nm s1
            else s1))"

text \<open>The first statements of \<open>visitFunctionCallNode\<close>: the check of the callee.\<close>

definition check_callee :: "token \<Rightarrow> astate \<Rightarrow> js_error + astate" where
  "check_callee nm s =
     and_then (lookup_current (tvalue nm) s) (\<lambda>f.
       Inr (case f of
              None \<Rightarrow> sem_error (js ''Function '' @ [39] @ tvalue nm @ [39] @ js '' not defined.'') nm s
            | Some (Own entry) \<Rightarrow>
                if stype entry \<noteq> js ''function''
                then sem_error ([39] @ tvalue nm @ [39] @ js '' is not a function.'') nm s
                else s
            | Some Inherited \<Rightarrow>
                sem_error ([39] @ tvalue nm @ [39] @ js '' is not a function.'') nm s))"

text \<open>
  \<open>visit\<close> dispatches on the class of the node and returns at once for \<open>null\<close>.
  \<open>genericVisit\<close> visits the children in the order of the fields: \<open>sem_each\<close> is the
  \<open>forEach\<close> over an array of nodes, \<open>sem_each_opt\<close> the one over the arguments of a call.
  For a call, \<open>genericVisit\<close> visits the \<open>name\<close>, an \<open>IdentifierNode\<close>, before the
  arguments.
\<close>

fun sem_visit :: "node \<Rightarrow> astate \<Rightarrow> js_error + astate"
  and sem_visit_opt :: "node option \<Rightarrow> astate \<Rightarrow> js_error + astate"
  and sem_each :: "node list \<Rightarrow> astate \<Rightarrow> js_error + astate"
  and sem_each_opt :: "node option list \<Rightarrow> astate \<Rightarrow> js_error + astate"
where
  "sem_visit (ProgramNode children) s = sem_each children s"
| "sem_visit (FunctionDefinitionNode returnType nm params body) s =
     and_then (function_header nm params s) (\<lambda>s1.
     and_then (sem_visit body s1) exitScope)"
| "sem_visit (BlockNode statements) s =
     and_then (sem_each statements (enterScope (js ''block'') s)) exitScope"
| "sem_visit (VariableDeclarationNode varType varName val) s =
     and_then (declare_variable varName s) (\<lambda>s1.
       case val of None \<Rightarrow> Inr s1 | Some v \<Rightarrow> sem_visit v s1)"
| "sem_visit (IdentifierNode t) s = visitIdentifierNode t s"
| "sem_visit (AssignmentNode left right) s =
     and_then (visitIdentifierNode left s) (sem_visit_opt right)"
| "sem_visit (BinaryOpNode left op right) s =
     and_then (sem_visit_opt left s) (sem_visit_opt right)"
| "sem_visit (IfStatementNode condition ifBody elseBody) s =
     and_then (sem_visit_opt condition s) (\<lambda>s1.
     and_then (sem_visit ifBody s1) (\<lambda>s2.
       case elseBody of None \<Rightarrow> Inr s2 | Some b \<Rightarrow> sem_visit b s2))"
| "sem_visit (ForLoopNode init condition increment body) s =
     and_then (sem_visit_opt init (enterScope (js ''for-loop'') s)) (\<lambda>s1.
     and_then (sem_visit_opt condition s1) (\<lambda>s2.
     and_then (sem_visit_opt increment s2) (\<lambda>s3.
     and_then (sem_visit body s3) exitScope)))"
| "sem_visit (FunctionCallNode nm args) s =
     and_then (check_callee nm s) (\<lambda>s1.
     and_then (visitIdentifierNode nm s1) (sem_each_opt args))"
| "sem_visit (ReturnStatementNode val) s = sem_visit_opt val s"
| "sem_visit (NumberNode t) s = Inr s"
| "sem_visit (StringLiteralNode t) s = Inr s"
| "sem_visit_opt None s = Inr s"
| "sem_visit_opt (Some n) s = sem_visit n s"
| "sem_each [] s = Inr s"
| "sem_each (n # ns) s = and_then (sem_visit n s) (sem_each ns)"
| "sem_each_opt [] s = Inr s"
| "sem_each_opt (a # as) s = and_then (sem_visit_opt a s) (sem_each_opt as)"

text \<open>\<open>analyze\<close> on a fresh analyzer: the visit of the tree from the state that the
  constructor leaves. The object that \<open>analyze\<close> returns holds the \<open>errors\<close> and the
  \<open>scopes\<close> of the final state.\<close>

definition analyze :: "node \<Rightarrow> js_error + astate" where
  "analyze ast = sem_visit ast initial_astate"

section \<open>Three-address code (the TACGenerator class of main.js)\<close>

text \<open>
  The generator of tac.js differs from the one of main.js, which is followed here, in two
  texts only: it writes \<open>ifFalse\<close> for \<open>if_false\<close>, and for a function definition it emits
  the name of the function before the body and nothing behind it.
\<close>

text \<open>The values that the visit methods return and \<open>emit\<close> receives: \<open>null\<close>,
  \<open>undefined\<close> (a method that returns nothing) or a string.\<close>

datatype jsval = Null | Undefined | Str jsstring

text \<open>A value in a condition: \<open>null\<close>, \<open>undefined\<close> and the empty string are false.\<close>

fun truthy :: "jsval \<Rightarrow> bool" where
  "truthy Null = False"
| "truthy Undefined = False"
| "truthy (Str s) = (s \<noteq> [])"

text \<open>A value inside a template literal.\<close>

fun template :: "jsval \<Rightarrow> jsstring" where
  "template Null = js ''null''"
| "template Undefined = js ''undefined''"
| "template (Str s) = s"

record tac_state =
  tempCounter :: nat
  labelCounter :: nat
  code :: "jsstring list"

definition newTemp :: "tac_state \<Rightarrow> jsstring \<times> tac_state" where
  "newTemp s = (js ''t'' @ string_of_nat (tempCounter s), s\<lparr>tempCounter := tempCounter s + 1\<rparr>)"

definition newLabel :: "tac_state \<Rightarrow> jsstring \<times> tac_state" where
  "newLabel s = (js ''L'' @ string_of_nat (labelCounter s), s\<lparr>labelCounter := labelCounter s + 1\<rparr>)"

text \<open>\<open>emit(op, arg1 = null, arg2 = null, result = null)\<close>\<close>

definition emit :: "jsstring \<Rightarrow> jsval \<Rightarrow> jsval \<Rightarrow> jsval \<Rightarrow> tac_state \<Rightarrow> tac_state" where
  "emit op arg1 arg2 result s =
     (let instruction =
        (if truthy result \<and> truthy arg2 then
           template result @ js '' = '' @ template arg1 @ js '' '' @ op @ js '' '' @ template arg2
         else if truthy result \<and> truthy arg1 then
           template result @ js '' = '' @ template arg1
         else if truthy arg1 then
           op @ js '' '' @ template arg1
         else
           op @ js '':'')
      in s\<lparr>code := code s @ [instruction]\<rparr>)"

text \<open>
  \<open>visit\<close> dispatches on the class of the node; \<open>visit(null)\<close> is \<open>null\<close>. \<open>tac_each\<close> is
  \<open>forEach(n => this.visit(n))\<close> and \<open>tac_map\<close> is \<open>map(arg => this.visit(arg))\<close>. A
  \<open>ParamNode\<close> is never visited.
\<close>

fun tac_visit :: "node \<Rightarrow> tac_state \<Rightarrow> jsval \<times> tac_state"
  and tac_visit_opt :: "node option \<Rightarrow> tac_state \<Rightarrow> jsval \<times> tac_state"
  and tac_each :: "node list \<Rightarrow> tac_state \<Rightarrow> tac_state"
  and tac_map :: "node option list \<Rightarrow> tac_state \<Rightarrow> jsval list \<times> tac_state"
where
  "tac_visit (ProgramNode children) s = (Undefined, tac_each children s)"
| "tac_visit (FunctionDefinitionNode returnType nm params body) s =
     (let s1 = emit (js ''func begin '' @ tvalue nm) Null Null Null s;
          (_, s2) = tac_visit body s1
      in (Undefined, emit (js ''func end '' @ tvalue nm) Null Null Null s2))"
| "tac_visit (BlockNode statements) s = (Undefined, tac_each statements s)"
| "tac_visit (VariableDeclarationNode varType varName val) s =
     (case val of
        None \<Rightarrow> (Undefined, s)
      | Some v \<Rightarrow>
          (let (valueTemp, s1) = tac_visit v s
           in (Undefined, emit (js ''='') valueTemp Null (Str (tvalue varName)) s1)))"
| "tac_visit (AssignmentNode left right) s =
     (let (rightTemp, s1) = tac_visit_opt right s
      in (Str (tvalue left), emit (js ''='') rightTemp Null (Str (tvalue left)) s1))"
| "tac_visit (BinaryOpNode left op right) s =
     (let (leftTemp, s1) = tac_visit_opt left s;
          (rightTemp, s2) = tac_visit_opt right s1;
          (resultTemp, s3) = newTemp s2
      in (Str resultTemp, emit op leftTemp rightTemp (Str resultTemp) s3))"
| "tac_visit (NumberNode t) s = (Str (tvalue t), s)"
| "tac_visit (IdentifierNode t) s = (Str (tvalue t), s)"
| "tac_visit (StringLiteralNode t) s = (Str (tvalue t), s)"
| "tac_visit (FunctionCallNode nm args) s =
     (let (argTemps, s1) = tac_map args s;
          s2 = fold (\<lambda>argTemp. emit (js ''param'') argTemp Null Null) argTemps s1;
          (resultTemp, s3) = newTemp s2
      in (Str resultTemp,
          emit (js ''call'') (Str (tvalue nm)) (Str (string_of_nat (length argTemps)))
            (Str resultTemp) s3))"
| "tac_visit (IfStatementNode condition ifBody elseBody) s =
     (let (conditionTemp, s1) = tac_visit_opt condition s;
          (elseLabel, s2) = newLabel s1;
          (endLabel, s3) = newLabel s2;
          s4 = emit (js ''if_false'') conditionTemp (Str (js ''goto '' @ elseLabel)) Null s3;
          (_, s5) = tac_visit ifBody s4;
          s6 = emit (js ''goto'') (Str endLabel) Null Null s5;
          s7 = emit elseLabel Null Null Null s6;
          s8 = (case elseBody of None \<Rightarrow> s7 | Some b \<Rightarrow> snd (tac_visit b s7))
      in (Undefined, emit endLabel Null Null Null s8))"
| "tac_visit (ForLoopNode init condition increment body) s =
     (let (startLabel, s1) = newLabel s;
          (endLabel, s2) = newLabel s1;
          (_, s3) = tac_visit_opt init s2;
          s4 = emit startLabel Null Null Null s3;
          (conditionTemp, s5) = tac_visit_opt condition s4;
          s6 = emit (js ''if_false'') conditionTemp (Str (js ''goto '' @ endLabel)) Null s5;
          (_, s7) = tac_visit body s6;
          (_, s8) = tac_visit_opt increment s7;
          s9 = emit (js ''goto'') (Str startLabel) Null Null s8
      in (Undefined, emit endLabel Null Null Null s9))"
| "tac_visit (ReturnStatementNode val) s =
     (case val of
        None \<Rightarrow> (Undefined, emit (js ''return'') Null Null Null s)
      | Some v \<Rightarrow>
          (let (valueTemp, s1) = tac_visit v s
           in (Undefined, emit (js ''return'') valueTemp Null Null s1)))"
| "tac_visit_opt None s = (Null, s)"
| "tac_visit_opt (Some n) s = tac_visit n s"
| "tac_each [] s = s"
| "tac_each (n # ns) s = tac_each ns (snd (tac_visit n s))"
| "tac_map [] s = ([], s)"
| "tac_map (a # as) s =
     (let (v, s1) = tac_visit_opt a s; (vs, s2) = tac_map as s1 in (v # vs, s2))"

text \<open>\<open>generate\<close> resets the counters and the code, visits the tree and returns the code.\<close>

definition generate :: "node \<Rightarrow> jsstring list" where
  "generate ast = code (snd (tac_visit ast \<lparr>tempCounter = 0, labelCounter = 0, code = []\<rparr>))"

section \<open>Properties of the lexer\<close>

lemmas lexer_eval = tokenize_def tokenize_loop.simps tokenSpecs_def Let_def
  match_FLOAT_LIT_def match_INT_LIT_def match_STRING_LIT_def match_KEYWORD_def
  match_IDENTIFIER_def match_OPERATOR_def match_SEPARATOR_def match_MISMATCH_def
  keyword_list_def keyword_here_def operators2_def after_ws_def lastIndexOf_def
  isDigit_def isIdentStart_def isWordChar_def isWhiteSpace_def isLineTerminator_def

subsection \<open>The catch-all rule\<close>

lemma drop_takeWhile_eq: "drop (length (takeWhile P xs)) xs = dropWhile P xs"
  by (induction xs) auto

text \<open>After the white space has been skipped the remaining code starts with a code unit
  outside \<open>\s\<close>. Every line terminator is in \<open>\s\<close>, so \<open>/^./\<close> matches there, and some rule
  of the list matches.\<close>

lemma first_match_total:
  assumes "s \<noteq> []" and "\<not> isWhiteSpace (hd s)"
  shows "\<exists>ty v. first_match tokenSpecs s = Some (ty, v)"
proof -
  from assms obtain c r where s: "s = c # r" and c: "\<not> isLineTerminator c"
    by (cases s) (auto simp: isWhiteSpace_def)
  then have "match_MISMATCH s = Some [c]" by (simp add: match_MISMATCH_def)
  then show ?thesis
    by (simp add: tokenSpecs_def split: option.splits)
qed

lemma tokenize_loop_returns: "\<exists>toks. tokenize_loop src lc tks = Inr toks"
proof (induction src lc tks rule: tokenize_loop.induct)
  case (1 remainingCode lc tks)
  define ws where "ws = takeWhile isWhiteSpace remainingCode"
  define rem1 where "rem1 = drop (length ws) remainingCode"
  define lc1 where "lc1 = (if ws \<noteq> [] then after_ws ws lc else lc)"
  have rem1: "rem1 = dropWhile isWhiteSpace remainingCode"
    by (simp add: rem1_def ws_def drop_takeWhile_eq)
  show ?case
  proof (cases "remainingCode = [] \<or> (ws \<noteq> [] \<and> rem1 = [])")
    case True
    then show ?thesis
      by (subst tokenize_loop.simps) (auto simp: Let_def ws_def rem1_def)
  next
    case False
    then have ne: "remainingCode \<noteq> []" and nbrk: "\<not> (ws \<noteq> [] \<and> rem1 = [])" by auto
    have "rem1 \<noteq> []"
    proof (cases "ws = []")
      case True
      then show ?thesis using ne by (simp add: rem1_def)
    next
      case False
      then show ?thesis using nbrk by simp
    qed
    moreover then have "\<not> isWhiteSpace (hd rem1)"
      unfolding rem1 by (rule hd_dropWhile)
    ultimately obtain ty v where fm: "first_match tokenSpecs rem1 = Some (ty, v)"
      using first_match_total by blast
    have "\<exists>toks. tokenize_loop (drop (length v) rem1) (fst lc1, snd lc1 + length v)
            (tks @ [\<lparr>ttype = ty, tvalue = v, tline = fst lc1, tcol = snd lc1\<rparr>]) = Inr toks"
      using "1.IH"[OF _ ws_def lc1_def rem1_def _ fm refl] ne nbrk by simp
    then show ?thesis
      using ne nbrk fm
      by (subst tokenize_loop.simps)
         (simp add: Let_def ws_def[symmetric] rem1_def[symmetric] lc1_def[symmetric])
  qed
qed

subsection \<open>The tokens and the source\<close>

text \<open>
  \<open>scanned toks s\<close> relates a token sequence to the text it was read from, leaving the
  positions aside: the text is white space, then the text of the first token, which is
  what the first matching rule takes at the first code unit that is not white space and
  has that rule's kind, then white space, then the second token, and so on to the end of
  the text, where only white space is left.
\<close>

fun scanned :: "token list \<Rightarrow> jsstring \<Rightarrow> bool" where
  "scanned [] s = (dropWhile isWhiteSpace s = [])"
| "scanned (t # ts) s =
     (first_match tokenSpecs (dropWhile isWhiteSpace s) = Some (ttype t, tvalue t) \<and>
      scanned ts (drop (length (tvalue t)) (dropWhile isWhiteSpace s)))"

lemma filter_dropWhile_isWhiteSpace:
  "filter (\<lambda>c. \<not> isWhiteSpace c) (dropWhile isWhiteSpace s) = filter (\<lambda>c. \<not> isWhiteSpace c) s"
  by (induction s) auto

lemma tokenize_loop_scanned:
  "\<exists>new. tokenize_loop src lc tks = Inr (tks @ new) \<and> scanned new src \<and>
     filter (\<lambda>c. \<not> isWhiteSpace c) (concat (map tvalue new)) =
       filter (\<lambda>c. \<not> isWhiteSpace c) src"
proof (induction src lc tks rule: tokenize_loop.induct)
  case (1 remainingCode lc tks)
  define ws where "ws = takeWhile isWhiteSpace remainingCode"
  define rem1 where "rem1 = drop (length ws) remainingCode"
  define lc1 where "lc1 = (if ws \<noteq> [] then after_ws ws lc else lc)"
  have rem1: "rem1 = dropWhile isWhiteSpace remainingCode"
    by (simp add: rem1_def ws_def drop_takeWhile_eq)
  have flt: "filter (\<lambda>c. \<not> isWhiteSpace c) remainingCode = filter (\<lambda>c. \<not> isWhiteSpace c) rem1"
    unfolding rem1 by (rule filter_dropWhile_isWhiteSpace[symmetric])
  show ?case
  proof (cases "remainingCode = [] \<or> (ws \<noteq> [] \<and> rem1 = [])")
    case True
    then have r: "tokenize_loop remainingCode lc tks = Inr tks"
      by (subst tokenize_loop.simps) (auto simp: Let_def ws_def rem1_def)
    from True have d: "rem1 = []" by (auto simp: rem1_def)
    show ?thesis
      by (rule exI[of _ "[]"]) (use r d flt in \<open>simp add: rem1[symmetric]\<close>)
  next
    case False
    then have ne: "remainingCode \<noteq> []" and nbrk: "\<not> (ws \<noteq> [] \<and> rem1 = [])" by auto
    have rne: "rem1 \<noteq> []"
      using ne nbrk by (cases "ws = []") (simp_all add: rem1_def)
    moreover then have "\<not> isWhiteSpace (hd rem1)"
      unfolding rem1 by (rule hd_dropWhile)
    ultimately obtain ty v where fm: "first_match tokenSpecs rem1 = Some (ty, v)"
      using first_match_total by blast
    define t where "t = \<lparr>ttype = ty, tvalue = v, tline = fst lc1, tcol = snd lc1\<rparr>"
    from "1.IH"[OF _ ws_def lc1_def rem1_def _ fm refl, folded t_def] ne nbrk
    obtain new where n: "tokenize_loop (drop (length v) rem1) (fst lc1, snd lc1 + length v)
          (tks @ [t]) = Inr ((tks @ [t]) @ new)"
      "scanned new (drop (length v) rem1)"
      "filter (\<lambda>c. \<not> isWhiteSpace c) (concat (map tvalue new)) =
         filter (\<lambda>c. \<not> isWhiteSpace c) (drop (length v) rem1)"
      by auto
    have l: "length remainingCode \<le> length ws \<longleftrightarrow> rem1 = []" by (simp add: rem1_def)
    have eq: "tokenize_loop remainingCode lc tks =
              tokenize_loop (drop (length v) rem1) (fst lc1, snd lc1 + length v) (tks @ [t])"
      using ne rne fm
      by (subst tokenize_loop.simps)
         (simp add: Let_def ws_def[symmetric] rem1_def[symmetric] lc1_def[symmetric] t_def l)
    from first_match_prefix[OF fm] obtain r where r: "rem1 = v @ r" by blast
    have tv: "ttype t = ty" "tvalue t = v" by (simp_all add: t_def)
    have f: "filter (\<lambda>c. \<not> isWhiteSpace c) (concat (map tvalue (t # new))) =
             filter (\<lambda>c. \<not> isWhiteSpace c) remainingCode"
      using n(3) r by (simp add: flt tv)
    have s: "scanned (t # new) remainingCode"
      using fm n(2) by (simp add: rem1[symmetric] tv)
    show ?thesis
      by (rule exI[of _ "t # new"]) (use eq n(1) s f in simp)
  qed
qed

text \<open>Where no rule before the catch-all matches, the catch-all takes one code unit.\<close>

lemma first_match_MISMATCH:
  assumes "\<not> isWhiteSpace c" and "first_match (butlast tokenSpecs) (c # rest) = None"
  shows "first_match tokenSpecs (c # rest) = Some (MISMATCH, [c])"
proof -
  from assms(1) have "\<not> isLineTerminator c" by (simp add: isWhiteSpace_def)
  then have "match_MISMATCH (c # rest) = Some [c]" by (simp add: match_MISMATCH_def)
  with assms(2) show ?thesis
    by (simp add: tokenSpecs_def split: option.splits)
qed

text \<open>
  Claim C2. \<open>tokenize\<close> is total: for every input string it returns a token sequence, and
  the \<open>throw\<close> of the unmatched-character path (the result \<open>Inl (LexerError _)\<close>) is
  never taken, because the catch-all rule matches whatever code unit is left after the
  white space has been skipped. The sequence is the full one: the source is the texts of
  the tokens in their order, each the match of the first rule that matches where it
  starts, with white space and nothing else before, between and behind them; so the code
  units of the source that are not white space are those of the token texts, in the same
  order, and each of them is in a token. Where the code unit at the current position is
  not white space and no rule before the catch-all matches there (an invalid character),
  the loop pushes a \<open>MISMATCH\<close> token with that one code unit and goes on behind it.
\<close>

theorem tokenize_total:
  "(\<exists>toks. tokenize src = Inr toks \<and> scanned toks src \<and>
      filter (\<lambda>c. \<not> isWhiteSpace c) (concat (map tvalue toks)) =
        filter (\<lambda>c. \<not> isWhiteSpace c) src) \<and>
   (\<not> isWhiteSpace c \<and> first_match (butlast tokenSpecs) (c # rest) = None \<longrightarrow>
      tokenize_loop (c # rest) lc tks =
        tokenize_loop rest (fst lc, snd lc + 1)
          (tks @ [\<lparr>ttype = MISMATCH, tvalue = [c], tline = fst lc, tcol = snd lc\<rparr>]))"
proof -
  have A: "\<exists>toks. tokenize src = Inr toks \<and> scanned toks src \<and>
      filter (\<lambda>c. \<not> isWhiteSpace c) (concat (map tvalue toks)) =
        filter (\<lambda>c. \<not> isWhiteSpace c) src"
    using tokenize_loop_scanned[of src "(1, 1)" "[]"] by (simp add: tokenize_def)
  have B: "tokenize_loop (c # rest) lc tks =
        tokenize_loop rest (fst lc, snd lc + 1)
          (tks @ [\<lparr>ttype = MISMATCH, tvalue = [c], tline = fst lc, tcol = snd lc\<rparr>])"
    if "\<not> isWhiteSpace c" and "first_match (butlast tokenSpecs) (c # rest) = None"
    using that(1) first_match_MISMATCH[OF that]
    by (subst tokenize_loop.simps) (simp add: Let_def)
  from A B show ?thesis by blast
qed

text \<open>The text \<open>a @\<close>: an identifier and an invalid character.\<close>

theorem tokenize_total_witness:
  "(\<exists>toks. tokenize (js ''a @'') = Inr toks \<and> scanned toks (js ''a @'') \<and>
      filter (\<lambda>c. \<not> isWhiteSpace c) (concat (map tvalue toks)) = js ''a@'') \<and>
   tokenize (js ''a @'') =
     Inr [\<lparr>ttype = IDENTIFIER, tvalue = js ''a'', tline = 1, tcol = 1\<rparr>,
          \<lparr>ttype = MISMATCH, tvalue = js ''@'', tline = 1, tcol = 3\<rparr>]"
proof -
  have h: "\<not> isWhiteSpace 64 \<and> first_match (butlast tokenSpecs) (64 # []) = None"
    by (simp add: lexer_eval)
  have f: "filter (\<lambda>c. \<not> isWhiteSpace c) (js ''a @'') = js ''a@''"
    by (simp add: isWhiteSpace_def isLineTerminator_def)
  have p: "tokenize (js ''a @'') =
     tokenize_loop [64] (1, 3) [\<lparr>ttype = IDENTIFIER, tvalue = js ''a'', tline = 1, tcol = 1\<rparr>]"
    unfolding tokenize_def
    by (subst tokenize_loop.simps, subst (2) tokenize_loop.simps) (simp add: lexer_eval)
  have e: "tokenize_loop [] (1, 4)
             [\<lparr>ttype = IDENTIFIER, tvalue = js ''a'', tline = 1, tcol = 1\<rparr>,
              \<lparr>ttype = MISMATCH, tvalue = [64], tline = 1, tcol = 3\<rparr>] =
           Inr [\<lparr>ttype = IDENTIFIER, tvalue = js ''a'', tline = 1, tcol = 1\<rparr>,
                \<lparr>ttype = MISMATCH, tvalue = [64], tline = 1, tcol = 3\<rparr>]"
    by (subst tokenize_loop.simps) simp
  note T = tokenize_total[of "js ''a @''" 64 "[]" "(1, 3)"
      "[\<lparr>ttype = IDENTIFIER, tvalue = js ''a'', tline = 1, tcol = 1\<rparr>]"]
  from T[THEN conjunct2, rule_format, OF h] p e
  have B: "tokenize (js ''a @'') =
     Inr [\<lparr>ttype = IDENTIFIER, tvalue = js ''a'', tline = 1, tcol = 1\<rparr>,
          \<lparr>ttype = MISMATCH, tvalue = js ''@'', tline = 1, tcol = 3\<rparr>]"
    by simp
  from T[THEN conjunct1] have A: "\<exists>toks. tokenize (js ''a @'') = Inr toks \<and> scanned toks (js ''a @'') \<and>
      filter (\<lambda>c. \<not> isWhiteSpace c) (concat (map tvalue toks)) = js ''a@''"
    unfolding f .
  from A B show ?thesis by (rule conjI)
qed

subsection \<open>Float literals before integer literals\<close>




subsection \<open>Positions\<close>

definition before :: "nat \<times> nat \<Rightarrow> nat \<times> nat \<Rightarrow> bool" where
  "before p q \<longleftrightarrow> fst p < fst q \<or> (fst p = fst q \<and> snd p < snd q)"

definition tpos :: "token \<Rightarrow> nat \<times> nat" where
  "tpos t = (tline t, tcol t)"

lemma before_trans: "before p q \<Longrightarrow> before q r \<Longrightarrow> before p r"
  by (auto simp: before_def)

lemma after_ws_mono: "before p lc \<Longrightarrow> before p (after_ws ws lc)"
  by (auto simp: after_ws_def before_def Let_def)

lemma tokenize_loop_ordered:
  assumes "tokenize_loop src lc toks = Inr out"
    and "sorted_wrt (\<lambda>a b. before (tpos a) (tpos b)) toks"
    and "\<forall>t\<in>set toks. before (tpos t) lc"
  shows "sorted_wrt (\<lambda>a b. before (tpos a) (tpos b)) out"
  using assms
proof (induction src lc toks rule: tokenize_loop.induct)
  case (1 remainingCode lc tks)
  define ws where "ws = takeWhile isWhiteSpace remainingCode"
  define rem1 where "rem1 = drop (length ws) remainingCode"
  define lc1 where "lc1 = (if ws \<noteq> [] then after_ws ws lc else lc)"
  have l: "length remainingCode \<le> length ws \<longleftrightarrow> rem1 = []" by (simp add: rem1_def)
  have lc1: "\<forall>t\<in>set tks. before (tpos t) lc1"
    using "1.prems"(3) by (auto simp: lc1_def intro: after_ws_mono)
  show ?case
  proof (cases "remainingCode = [] \<or> (ws \<noteq> [] \<and> rem1 = [])")
    case True
    then have "tokenize_loop remainingCode lc tks = Inr tks"
      by (subst tokenize_loop.simps) (auto simp: Let_def ws_def rem1_def)
    with "1.prems" show ?thesis by simp
  next
    case False
    then have ne: "remainingCode \<noteq> []" and nbrk: "\<not> (ws \<noteq> [] \<and> rem1 = [])" by auto
    have rne: "rem1 \<noteq> []"
      using ne nbrk by (cases "ws = []") (simp_all add: rem1_def)
    show ?thesis
    proof (cases "first_match tokenSpecs rem1")
      case None
      then have "tokenize_loop remainingCode lc tks = Inr tks \<or>
                 (\<exists>e. tokenize_loop remainingCode lc tks = Inl e)"
        using ne rne
        by (subst tokenize_loop.simps, subst (2) tokenize_loop.simps)
           (simp add: Let_def ws_def[symmetric] rem1_def[symmetric] l)
      with "1.prems" show ?thesis by auto
    next
      case (Some p)
      obtain ty v where p: "p = (ty, v)" by (cases p)
      with Some have fm: "first_match tokenSpecs rem1 = Some (ty, v)" by simp
      define t where "t = \<lparr>ttype = ty, tvalue = v, tline = fst lc1, tcol = snd lc1\<rparr>"
      have v: "v \<noteq> []" using first_match_prefix[OF fm] by simp
      have eq: "tokenize_loop remainingCode lc tks =
                tokenize_loop (drop (length v) rem1) (fst lc1, snd lc1 + length v) (tks @ [t])"
        using ne rne fm
        by (subst tokenize_loop.simps)
           (simp add: Let_def ws_def[symmetric] rem1_def[symmetric] lc1_def[symmetric] t_def l)
      have tp: "tpos t = lc1" by (simp add: tpos_def t_def)
      have s: "sorted_wrt (\<lambda>a b. before (tpos a) (tpos b)) (tks @ [t])"
        using "1.prems"(2) lc1 by (simp add: sorted_wrt_append tp)
      have adv: "before lc1 (fst lc1, snd lc1 + length v)"
        using v by (simp add: before_def)
      have b: "\<forall>x\<in>set (tks @ [t]). before (tpos x) (fst lc1, snd lc1 + length v)"
        using lc1 adv by (auto simp: tp intro: before_trans)
      show ?thesis
        using "1.IH"[OF _ ws_def lc1_def rem1_def _ fm refl, folded t_def] ne nbrk s b
          "1.prems"(1) eq
        by simp
    qed
  qed
qed

text \<open>
  Claim C9, as the specification states it, asks that the lines and the columns recorded
  on the tokens both never decrease along the sequence. The columns do decrease: the
  column is reset after a newline. In the text \<open>  ab\<close>, newline, \<open>c\<close> the first token is
  at column 3 of line 1 and the second at column 1 of line 2.
\<close>

theorem token_columns_decrease:
  "tokenize (js ''  ab'' @ [10] @ js ''c'') =
     Inr [\<lparr>ttype = IDENTIFIER, tvalue = js ''ab'', tline = 1, tcol = 3\<rparr>,
          \<lparr>ttype = IDENTIFIER, tvalue = js ''c'', tline = 2, tcol = 1\<rparr>] \<and>
   \<not> sorted (map tcol
     [\<lparr>ttype = IDENTIFIER, tvalue = js ''ab'', tline = 1, tcol = 3\<rparr>,
      \<lparr>ttype = IDENTIFIER, tvalue = js ''c'', tline = 2, tcol = 1\<rparr>])"
  by (simp add: lexer_eval)

text \<open>
  Claim C9, amended. For every source text the line numbers recorded on the tokens never
  decrease along the sequence, and the positions strictly increase in the order of lines
  first and columns second: a later token is on a later line, or on the same line at a
  greater column.
\<close>

theorem token_positions_ordered:
  assumes "tokenize src = Inr toks"
  shows "sorted (map tline toks) \<and>
     sorted_wrt (\<lambda>a b. tline a < tline b \<or> (tline a = tline b \<and> tcol a < tcol b)) toks"
proof -
  have s: "sorted_wrt (\<lambda>a b. before (tpos a) (tpos b)) toks"
    using tokenize_loop_ordered[of src "(1, 1)" "[]" toks] assms by (simp add: tokenize_def)
  then have "sorted_wrt (\<lambda>a b. tline a < tline b \<or> (tline a = tline b \<and> tcol a < tcol b)) toks"
    by (simp add: before_def tpos_def)
  moreover have "sorted (map tline toks)"
    unfolding sorted_map
    by (rule sorted_wrt_mono_rel[OF _ s]) (auto simp: before_def tpos_def)
  ultimately show ?thesis by simp
qed

theorem token_positions_ordered_witness:
  "sorted (map tline
     [\<lparr>ttype = IDENTIFIER, tvalue = js ''ab'', tline = 1, tcol = 3\<rparr>,
      \<lparr>ttype = IDENTIFIER, tvalue = js ''c'', tline = 2, tcol = 1\<rparr>]) \<and>
   sorted_wrt (\<lambda>a b. tline a < tline b \<or> (tline a = tline b \<and> tcol a < tcol b))
     [\<lparr>ttype = IDENTIFIER, tvalue = js ''ab'', tline = 1, tcol = 3\<rparr>,
      \<lparr>ttype = IDENTIFIER, tvalue = js ''c'', tline = 2, tcol = 1\<rparr>]"
proof -
  have h: "tokenize (js ''  ab'' @ [10] @ js ''c'') =
     Inr [\<lparr>ttype = IDENTIFIER, tvalue = js ''ab'', tline = 1, tcol = 3\<rparr>,
          \<lparr>ttype = IDENTIFIER, tvalue = js ''c'', tline = 2, tcol = 1\<rparr>]"
    by (simp add: lexer_eval)
  from token_positions_ordered[OF h] show ?thesis .
qed

section \<open>Properties of the parser\<close>

subsection \<open>Evaluation\<close>

lemmas parser_eval = parse_def parseFunctionDefinition_def parseStatement_def
  parseVariableDeclaration_def parseAssignment_def parseFunctionCallStatement_def
  parseIfStatement_def parseForLoop_def parseReturnStatement_def
  parseLogicalOr_def parseLogicalAnd_def parseComparison_def parseTerm_def parseFactor_def
  parsePrimary_def parseFunctionCallExpression_def parseArguments_def
  expect_def parser_error_def currentToken_def currentValue_def nextValue_def advance_def
  newIdentifierNode_def isOperatorIn_def comparison_ops_def recover_def recover_loop.simps
  pret_def pthrow_def string_of_nat.simps tok_def Let_def

definition example_printf_tokens :: "token list" where
  "example_printf_tokens =
     [tok KEYWORD ''int'' 1 1, tok IDENTIFIER ''main'' 1 5, tok SEPARATOR ''('' 1 9,
      tok SEPARATOR '')'' 1 10, tok SEPARATOR ''{'' 1 12, tok KEYWORD ''printf'' 1 14,
      tok OPERATOR ''='' 1 21, tok INT_LIT ''1'' 1 23, tok SEPARATOR '';'' 1 24,
      tok SEPARATOR ''}'' 1 26]"

lemma example_printf_tokenize: "tokenize (js ''int main() { printf = 1; }'') = Inr example_printf_tokens"
  by (simp add: example_printf_tokens_def tok_def lexer_eval)

lemma example_printf_parse: "parse (Suc (Suc (Suc n))) example_printf_tokens = Some (Inl TypeError)"
  by (simp add: example_printf_tokens_def parser_eval)


subsection \<open>Statements that fail\<close>

text \<open>A statement method that returns \<open>null\<close> has pushed an error before.\<close>

lemma pbind_Some_Inr:
  "(pbind m f = Some (Inr r)) = (\<exists>a s1. m = Some (Inr (a, s1)) \<and> f a s1 = Some (Inr r))"
  by (auto simp: pbind_def split: option.splits sum.splits)

lemma expect_perrors:
  "fst (expect ty v s) = None \<Longrightarrow> perrors (snd (expect ty v s)) \<noteq> []"
  "perrors s \<noteq> [] \<Longrightarrow> perrors (snd (expect ty v s)) \<noteq> []"
  by (auto simp: expect_def parser_error_def advance_def Let_def split: option.splits)

lemma parser_error_perrors: "perrors (parser_error m t s) \<noteq> []"
  by (simp add: parser_error_def advance_def Let_def)

lemma parseVariableDeclaration_null:
  assumes "parseVariableDeclaration n s = Some (Inr (None, s'))"
  shows "perrors s' \<noteq> []"
proof -
  define s1 where "s1 = snd (expect KEYWORD None s)"
  define s2 where "s2 = snd (expect IDENTIFIER None s1)"
  have "fst (expect KEYWORD None s) = None \<or> fst (expect IDENTIFIER None s1) = None"
    and "s' = s2"
    using assms
    by (auto simp: parseVariableDeclaration_def case_prod_beta Let_def pbind_Some_Inr pret_def
          s1_def s2_def split: option.splits if_splits)
  then show ?thesis
    using expect_perrors[where ty=KEYWORD and v=None and s=s]
      expect_perrors[where ty=IDENTIFIER and v=None and s=s1]
    by (auto simp: s1_def s2_def)
qed

lemma parseStatement_null:
  assumes "parseStatement pb n s = Some (Inr (None, s'))" and "currentToken s \<noteq> None"
  shows "perrors s' \<noteq> []"
proof -
  from assms(2) obtain t where t: "currentToken s = Some t" by auto
  have i: "parseIfStatement pb n s \<noteq> Some (Inr (None, s'))"
    by (auto simp: parseIfStatement_def case_prod_beta Let_def pbind_Some_Inr pret_def
          split: if_splits)
  have f: "parseForLoop pb n s \<noteq> Some (Inr (None, s'))"
    by (auto simp: parseForLoop_def case_prod_beta Let_def pbind_Some_Inr pret_def)
  have r: "parseReturnStatement n s \<noteq> Some (Inr (None, s'))"
    by (auto simp: parseReturnStatement_def case_prod_beta Let_def pbind_Some_Inr pret_def)
  have a: "parseAssignment n False s \<noteq> Some (Inr (None, s'))"
    by (auto simp: parseAssignment_def case_prod_beta Let_def pbind_Some_Inr pret_def pthrow_def
          split: sum.splits)
  have c: "parseFunctionCallStatement n s = Some (Inr (None, s')) \<Longrightarrow> perrors s' \<noteq> []"
    by (auto simp: parseFunctionCallStatement_def case_prod_beta Let_def pbind_Some_Inr pret_def
          pthrow_def parser_error_perrors split: option.splits if_splits)
  show ?thesis
    using assms(1) t i f r a c parseVariableDeclaration_null[of n s s']
    by (auto simp: parseStatement_def pret_def parser_error_perrors split: if_splits)
qed


subsection \<open>Recovery\<close>




subsection \<open>The assignment to \<open>printf\<close>\<close>

text \<open>
  \<open>parseStatement\<close> sends a statement that starts with an identifier or with the keyword
  \<open>printf\<close>, followed by \<open>=\<close>, to \<open>parseAssignment\<close>. There \<open>expect('IDENTIFIER')\<close> fails
  on the keyword, pushes its error and returns \<open>null\<close>, and \<open>new IdentifierNode(null)\<close>
  throws.
\<close>

lemma printf_assignment_throws:
  assumes "currentToken s = Some t" and "ttype t = KEYWORD" and "tvalue t = js ''printf''"
    and "nextValue s = Some (js ''='')"
  shows "parseStatement pb n s = Some (Inl TypeError)"
  using assms
  by (simp add: parseStatement_def parseAssignment_def expect_def newIdentifierNode_def
        pthrow_def Let_def)

text \<open>
  Claim C1 asks that \<open>parse\<close> returns normally for every token sequence, with every
  failure recorded as a syntax error, in particular for a statement that begins with
  \<open>printf\<close> followed by \<open>=\<close>. On the tokens of \<open>int main() { printf = 1; }\<close> the parser
  throws a \<open>TypeError\<close>, whatever bound is given that lets it reach the statement.
  \<open>parseVariableDeclaration\<close> and \<open>parseFunctionDefinition\<close> test the result of \<open>expect\<close>
  before they build the node; \<open>parseAssignment\<close> does not.
\<close>

theorem parse_throws_on_printf_assignment:
  "tokenize (js ''int main() { printf = 1; }'') = Inr example_printf_tokens \<and>
   (\<forall>n. parse (Suc (Suc (Suc n))) example_printf_tokens = Some (Inl TypeError))"
  using example_printf_tokenize example_printf_parse by simp

subsection \<open>Failures inside a block and at the top level\<close>













subsection \<open>A failure inside a statement\<close>










section \<open>Properties of the semantic analysis\<close>

subsection \<open>The scope tree\<close>

text \<open>
  The tables of a run form a tree: the first one has no parent and every other one has
  a parent that was pushed before it. \<open>cur_ok\<close>: the current scope is one of the tables.
  \<open>same_shape\<close>: the tables that existed before are still there, with their names and
  their parents. A step is \<open>balanced\<close> when, from such a state, it returns without
  throwing, with the current scope it started from, in such a state again.
\<close>

definition tree_ok :: "scope list \<Rightarrow> bool" where
  "tree_ok scs \<longleftrightarrow>
     scs \<noteq> [] \<and> parent (scs ! 0) = None \<and>
     (\<forall>i<length scs. 0 < i \<longrightarrow> (\<exists>p<i. parent (scs ! i) = Some p))"

definition cur_ok :: "astate \<Rightarrow> bool" where
  "cur_ok s \<longleftrightarrow> (\<exists>c<length (scopes s). currentScope s = Some c)"

definition same_shape :: "astate \<Rightarrow> astate \<Rightarrow> bool" where
  "same_shape s s' \<longleftrightarrow>
     length (scopes s) \<le> length (scopes s') \<and>
     (\<forall>i<length (scopes s). parent (scopes s' ! i) = parent (scopes s ! i) \<and>
                             name (scopes s' ! i) = name (scopes s ! i))"

definition balanced :: "(astate \<Rightarrow> js_error + astate) \<Rightarrow> bool" where
  "balanced f \<longleftrightarrow>
     (\<forall>s. tree_ok (scopes s) \<and> cur_ok s \<longrightarrow>
        (\<exists>s'. f s = Inr s' \<and> currentScope s' = currentScope s \<and>
              tree_ok (scopes s') \<and> same_shape s s'))"

lemma same_shape_refl: "same_shape s s" by (simp add: same_shape_def)
lemma same_shape_trans: "same_shape s s' \<Longrightarrow> same_shape s' s'' \<Longrightarrow> same_shape s s''"
  by (auto simp: same_shape_def)

lemma balanced_Inr: "balanced Inr"
  by (auto simp: balanced_def same_shape_refl)

lemma balanced_seq:
  assumes "balanced f" "balanced g"
  shows "balanced (\<lambda>s. and_then (f s) g)"
  unfolding balanced_def
proof (intro allI impI)
  fix s assume a: "tree_ok (scopes s) \<and> cur_ok s"
  with assms(1) obtain s1 where 1: "f s = Inr s1" "currentScope s1 = currentScope s"
      "tree_ok (scopes s1)" "same_shape s s1"
    unfolding balanced_def by blast
  have "cur_ok s1" using a 1 by (auto simp: cur_ok_def same_shape_def)
  with assms(2) 1 obtain s2 where 2: "g s1 = Inr s2" "currentScope s2 = currentScope s1"
      "tree_ok (scopes s2)" "same_shape s1 s2"
    unfolding balanced_def by blast
  show "\<exists>s'. and_then (f s) g = Inr s' \<and> currentScope s' = currentScope s \<and>
              tree_ok (scopes s') \<and> same_shape s s'"
    using 1 2 by (auto intro: same_shape_trans)
qed

lemma define_symbol_shape:
  "parent (snd (define_symbol nm ty ps sc)) = parent sc"
  "name (snd (define_symbol nm ty ps sc)) = name sc"
  by (simp_all add: define_symbol_def)

lemma define_at_shape:
  assumes "i < length (scopes s)"
  shows "length (scopes (snd (define_at i nm ty ps s))) = length (scopes s)"
    and "\<And>j. parent (scopes (snd (define_at i nm ty ps s)) ! j) = parent (scopes s ! j)"
    and "\<And>j. name (scopes (snd (define_at i nm ty ps s)) ! j) = name (scopes s ! j)"
    and "currentScope (snd (define_at i nm ty ps s)) = currentScope s"
  using assms
  by (auto simp: define_at_def case_prod_beta nth_list_update define_symbol_shape)

lemma tree_ok_cong:
  assumes "tree_ok scs" "length scs' = length scs" "\<And>j. parent (scs' ! j) = parent (scs ! j)"
  shows "tree_ok scs'"
  using assms unfolding tree_ok_def by (metis length_0_conv)

lemma sem_error_simps [simp]:
  "scopes (sem_error m t s) = scopes s"
  "currentScope (sem_error m t s) = currentScope s"
  by (simp_all add: sem_error_def)

lemma same_shape_sem_error [simp]: "same_shape s (sem_error m t s') = same_shape s s'"
  by (simp add: same_shape_def)

lemma balanced_declare_variable: "balanced (declare_variable nm)"
  unfolding balanced_def
proof (intro allI impI)
  fix s assume a: "tree_ok (scopes s) \<and> cur_ok s"
  then obtain c where c: "c < length (scopes s)" "currentScope s = Some c"
    by (auto simp: cur_ok_def)
  note sh = define_at_shape[OF c(1)]
  have t: "\<And>nm ty ps. tree_ok (scopes (snd (define_at c nm ty ps s)))"
    using a by (auto intro: tree_ok_cong simp: sh)
  show "\<exists>s'. declare_variable nm s = Inr s' \<and> currentScope s' = currentScope s \<and>
              tree_ok (scopes s') \<and> same_shape s s'"
    using c
    by (simp add: declare_variable_def define_current_def case_prod_beta same_shape_def sh t)
qed

lemma balanced_visitIdentifierNode: "balanced (visitIdentifierNode t)"
  by (auto simp: balanced_def visitIdentifierNode_def lookup_current_def cur_ok_def same_shape_refl)

lemma balanced_check_callee: "balanced (check_callee t)"
  by (auto simp: balanced_def check_callee_def lookup_current_def cur_ok_def same_shape_refl
      split: option.splits property.splits)


definition entered :: "astate \<Rightarrow> astate \<Rightarrow> bool" where
  "entered s s1 \<longleftrightarrow>
     tree_ok (scopes s1) \<and> same_shape s s1 \<and>
     length (scopes s1) = Suc (length (scopes s)) \<and>
     currentScope s1 = Some (length (scopes s)) \<and>
     parent (scopes s1 ! length (scopes s)) = currentScope s"

lemma balanced_bracket:
  assumes f: "balanced f"
    and enter: "\<And>s. tree_ok (scopes s) \<Longrightarrow> cur_ok s \<Longrightarrow> \<exists>s1. enter s = Inr s1 \<and> entered s s1"
  shows "balanced (\<lambda>s. and_then (and_then (enter s) f) exitScope)"
  unfolding balanced_def
proof (intro allI impI)
  fix s assume a: "tree_ok (scopes s) \<and> cur_ok s"
  define L where "L = length (scopes s)"
  from enter a obtain s1 where s1: "enter s = Inr s1" "entered s s1" by blast
  then have e: "tree_ok (scopes s1)" "same_shape s s1" "length (scopes s1) = Suc L"
      "currentScope s1 = Some L" "parent (scopes s1 ! L) = currentScope s"
    by (auto simp: entered_def L_def)
  have "cur_ok s1" using e by (simp add: cur_ok_def)
  with f e obtain s2 where s2: "f s1 = Inr s2" "currentScope s2 = Some L"
      "tree_ok (scopes s2)" "same_shape s1 s2"
    unfolding balanced_def by force
  have p: "parent (scopes s2 ! L) = currentScope s"
    using s2(4) e by (simp add: same_shape_def)
  have x: "exitScope s2 = Inr (s2\<lparr>currentScope := currentScope s\<rparr>)"
    using s2(2) p by (simp add: exitScope_def)
  have sh: "same_shape s (s2\<lparr>currentScope := currentScope s\<rparr>)"
    using same_shape_trans[OF e(2) s2(4)] by (simp add: same_shape_def)
  show "\<exists>s'. and_then (and_then (enter s) f) exitScope = Inr s' \<and>
          currentScope s' = currentScope s \<and> tree_ok (scopes s') \<and> same_shape s s'"
    using s1 s2 x sh by simp
qed

lemma entered_enterScope:
  assumes "tree_ok (scopes s)" "cur_ok s"
  shows "entered s (enterScope nm s)"
proof -
  from assms obtain c where c: "c < length (scopes s)" "currentScope s = Some c"
    by (auto simp: cur_ok_def)
  have "tree_ok (scopes s @ [\<lparr>name = nm, parent = Some c, symbols = []\<rparr>])"
    using assms(1) c(1) unfolding tree_ok_def
    by (auto simp: nth_append less_Suc_eq)
  then show ?thesis
    using c by (simp add: entered_def enterScope_def same_shape_def nth_append)
qed

lemma define_params_result:
  assumes "currentScope s = Some c" "c < length (scopes s)"
  shows "\<exists>s'. define_params ps s = Inr s' \<and> length (scopes s') = length (scopes s) \<and>
           (\<forall>j. parent (scopes s' ! j) = parent (scopes s ! j) \<and>
                name (scopes s' ! j) = name (scopes s ! j)) \<and>
           (\<forall>j. j \<noteq> c \<longrightarrow> scopes s' ! j = scopes s ! j) \<and>
           currentScope s' = currentScope s \<and> errors s' = errors s"
  using assms
proof (induction ps arbitrary: s)
  case Nil
  then show ?case by simp
next
  case (Cons p ps)
  define s1 where "s1 = snd (define_at c (tvalue (paramName p)) (paramType p) [] s)"
  note sh = define_at_shape[OF Cons.prems(2), of "tvalue (paramName p)" "paramType p" "[]", folded s1_def]
  have o: "\<And>j. j \<noteq> c \<Longrightarrow> scopes s1 ! j = scopes s ! j" "errors s1 = errors s"
    by (simp_all add: s1_def define_at_def case_prod_beta)
  have "currentScope s1 = Some c" "c < length (scopes s1)"
    using sh Cons.prems by simp_all
  from Cons.IH[OF this] obtain s' where s': "define_params ps s1 = Inr s'"
    "length (scopes s') = length (scopes s1)"
    "\<forall>j. parent (scopes s' ! j) = parent (scopes s1 ! j) \<and> name (scopes s' ! j) = name (scopes s1 ! j)"
    "\<forall>j. j \<noteq> c \<longrightarrow> scopes s' ! j = scopes s1 ! j"
    "currentScope s' = currentScope s1" "errors s' = errors s1"
    by blast
  have "define_params (p # ps) s = define_params ps s1"
    using Cons.prems by (simp add: define_current_def s1_def case_prod_beta)
  then show ?case using s' sh o by simp
qed


lemma define_symbol_get:
  "symbols_get (symbols (snd (define_symbol nm ty ps sc))) nm \<noteq> None"
  by (auto simp: define_symbol_def symbols_get_def split: option.splits)

lemma define_symbol_mono:
  "symbols_get (symbols sc) x \<noteq> None \<Longrightarrow>
   symbols_get (symbols (snd (define_symbol nm ty ps sc))) x \<noteq> None"
  by (auto simp: define_symbol_def symbols_get_def split: option.splits if_splits)

lemma define_params_declared:
  assumes "currentScope s = Some c" "c < length (scopes s)" "define_params ps s = Inr s'"
  shows "(\<forall>p\<in>set ps. symbols_get (symbols (scopes s' ! c)) (tvalue (paramName p)) \<noteq> None) \<and>
         (\<forall>x. symbols_get (symbols (scopes s ! c)) x \<noteq> None \<longrightarrow>
              symbols_get (symbols (scopes s' ! c)) x \<noteq> None)"
  using assms
proof (induction ps arbitrary: s)
  case Nil
  then show ?case by simp
next
  case (Cons p ps)
  define s1 where "s1 = snd (define_at c (tvalue (paramName p)) (paramType p) [] s)"
  note sh = define_at_shape[OF Cons.prems(2), of "tvalue (paramName p)" "paramType p" "[]", folded s1_def]
  have c1: "currentScope s1 = Some c" "c < length (scopes s1)"
    using sh Cons.prems by simp_all
  have sc: "scopes s1 ! c = snd (define_symbol (tvalue (paramName p)) (paramType p) [] (scopes s ! c))"
    using Cons.prems(2) by (simp add: s1_def define_at_def case_prod_beta)
  have d: "define_params ps s1 = Inr s'"
    using Cons.prems by (simp add: define_current_def s1_def case_prod_beta)
  from Cons.IH[OF c1 d] have ih:
    "\<forall>p\<in>set ps. symbols_get (symbols (scopes s' ! c)) (tvalue (paramName p)) \<noteq> None"
    "\<forall>x. symbols_get (symbols (scopes s1 ! c)) x \<noteq> None \<longrightarrow>
         symbols_get (symbols (scopes s' ! c)) x \<noteq> None"
    by auto
  have here: "symbols_get (symbols (scopes s1 ! c)) (tvalue (paramName p)) \<noteq> None"
    unfolding sc by (rule define_symbol_get)
  have mono: "\<forall>x. symbols_get (symbols (scopes s ! c)) x \<noteq> None \<longrightarrow>
         symbols_get (symbols (scopes s1 ! c)) x \<noteq> None"
    unfolding sc by (intro allI impI define_symbol_mono)
  show ?case using ih here mono by auto
qed

lemma function_header_result:
  assumes "tree_ok (scopes s)" "cur_ok s"
  shows "\<exists>s1. function_header nm ps s = Inr s1 \<and>
     length (scopes s1) = Suc (length (scopes s)) \<and>
     scopes s1 ! 0 = snd (define_symbol (tvalue nm) (js ''function'') ps (scopes s ! 0)) \<and>
     (\<forall>i<length (scopes s). 0 < i \<longrightarrow> scopes s1 ! i = scopes s ! i) \<and>
     errors s1 = errors s @
       (if symbols_get (symbols (scopes s ! 0)) (tvalue nm) \<noteq> None
        then [\<lparr>message = js ''Semantic Error: Function '' @ [39] @ tvalue nm @ [39] @
                          js '' already defined.'',
               line = tline nm\<rparr>]
        else []) \<and>
     currentScope s1 = Some (length (scopes s)) \<and>
     name (scopes s1 ! length (scopes s)) = tvalue nm \<and>
     parent (scopes s1 ! length (scopes s)) = currentScope s \<and>
     (\<forall>p\<in>set ps. symbols_get (symbols (scopes s1 ! length (scopes s)))
                     (tvalue (paramName p)) \<noteq> None)"
proof -
  define L where "L = length (scopes s)"
  from assms have L0: "0 < L" by (simp add: tree_ok_def L_def)
  define d where "d = define_at globalScope (tvalue nm) (js ''function'') ps s"
  define s2 where "s2 = (if \<not> fst d
                then sem_error (js ''Function '' @ [39] @ tvalue nm @ [39] @ js '' already defined.'') nm (snd d)
                else snd d)"
  define s3 where "s3 = enterScope (tvalue nm) s2"
  have fh: "function_header nm ps s = define_params ps s3"
    by (simp add: function_header_def d_def s2_def s3_def case_prod_beta Let_def)
  have d1: "scopes (snd d) = (scopes s)[0 := snd (define_symbol (tvalue nm) (js ''function'') ps (scopes s ! 0))]"
    "fst d = (symbols_get (symbols (scopes s ! 0)) (tvalue nm) = None)"
    "errors (snd d) = errors s" "currentScope (snd d) = currentScope s"
    by (auto simp: d_def define_at_def globalScope_def case_prod_beta define_symbol_def)
  have s2: "scopes s2 = scopes (snd d)" "currentScope s2 = currentScope s"
    "errors s2 = errors s @
       (if symbols_get (symbols (scopes s ! 0)) (tvalue nm) \<noteq> None
        then [\<lparr>message = js ''Semantic Error: Function '' @ [39] @ tvalue nm @ [39] @
                          js '' already defined.'',
               line = tline nm\<rparr>]
        else [])"
    by (auto simp: s2_def d1 sem_error_def)
  have s3: "scopes s3 = scopes s2 @ [\<lparr>name = tvalue nm, parent = currentScope s, symbols = []\<rparr>]"
    "currentScope s3 = Some L" "errors s3 = errors s2"
    by (simp_all add: s3_def enterScope_def s2 d1 L_def)
  have len3: "length (scopes s3) = Suc L" by (simp add: s3 s2 d1 L_def)
  from define_params_result[of s3 L ps] s3(2) len3
  obtain s' where s': "define_params ps s3 = Inr s'" "length (scopes s') = length (scopes s3)"
    "\<forall>j. parent (scopes s' ! j) = parent (scopes s3 ! j) \<and> name (scopes s' ! j) = name (scopes s3 ! j)"
    "\<forall>j. j \<noteq> L \<longrightarrow> scopes s' ! j = scopes s3 ! j"
    "currentScope s' = currentScope s3" "errors s' = errors s3"
    by auto
  have decl: "\<forall>p\<in>set ps. symbols_get (symbols (scopes s' ! L)) (tvalue (paramName p)) \<noteq> None"
    using define_params_declared[OF s3(2) _ s'(1)] len3 by simp
  have g: "scopes s' ! 0 = snd (define_symbol (tvalue nm) (js ''function'') ps (scopes s ! 0))"
    using s'(4) L0 by (simp add: s3 s2 d1 nth_append L_def)
  have others: "\<forall>i<L. 0 < i \<longrightarrow> scopes s' ! i = scopes s ! i"
    using s'(4) by (auto simp: s3 s2 d1 nth_append L_def)
  have nw: "name (scopes s' ! L) = tvalue nm" "parent (scopes s' ! L) = currentScope s"
    using s'(3) by (simp_all add: s3 s2 d1 nth_append L_def)
  show ?thesis
    unfolding fh L_def[symmetric]
    using s' len3 g others nw decl s3 s2(3) by simp
qed

lemma entered_function_header:
  assumes "tree_ok (scopes s)" "cur_ok s"
  shows "\<exists>s1. function_header nm ps s = Inr s1 \<and> entered s s1"
proof -
  from function_header_result[OF assms, of nm ps] obtain s1 where
    r: "function_header nm ps s = Inr s1"
       "length (scopes s1) = Suc (length (scopes s))"
       "scopes s1 ! 0 = snd (define_symbol (tvalue nm) (js ''function'') ps (scopes s ! 0))"
       "\<forall>i<length (scopes s). 0 < i \<longrightarrow> scopes s1 ! i = scopes s ! i"
       "currentScope s1 = Some (length (scopes s))"
       "parent (scopes s1 ! length (scopes s)) = currentScope s"
    by blast
  have old: "\<And>i. i < length (scopes s) \<Longrightarrow> parent (scopes s1 ! i) = parent (scopes s ! i) \<and>
                name (scopes s1 ! i) = name (scopes s ! i)"
  proof -
    fix i assume "i < length (scopes s)"
    then show "parent (scopes s1 ! i) = parent (scopes s ! i) \<and> name (scopes s1 ! i) = name (scopes s ! i)"
      using r(3,4) by (cases "i = 0") (auto simp: define_symbol_shape)
  qed
  from assms obtain c where c: "c < length (scopes s)" "currentScope s = Some c"
    by (auto simp: cur_ok_def)
  have "tree_ok (scopes s1)"
    unfolding tree_ok_def
  proof (intro conjI allI impI)
    show "scopes s1 \<noteq> []" using r(2) by auto
    show "parent (scopes s1 ! 0) = None"
      using old[of 0] assms(1) by (simp add: tree_ok_def)
    fix i assume i: "i < length (scopes s1)" "0 < i"
    show "\<exists>p<i. parent (scopes s1 ! i) = Some p"
    proof (cases "i < length (scopes s)")
      case True
      then show ?thesis using old[of i] assms(1) i by (simp add: tree_ok_def)
    next
      case False
      then have "i = length (scopes s)" using i r(2) by simp
      then show ?thesis using r(6) c by simp
    qed
  qed
  then show ?thesis
    using r old by (auto simp: entered_def same_shape_def)
qed


lemma and_then_assoc: "and_then (and_then m f) g = and_then m (\<lambda>a. and_then (f a) g)"
  by (cases m) simp_all

lemma balanced_cong: "(\<And>s. f s = g s) \<Longrightarrow> balanced g \<Longrightarrow> balanced f"
  by (simp add: balanced_def)

lemma balanced_opt:
  assumes "\<And>x. x \<in> set_option no \<Longrightarrow> balanced (sem_visit x)"
  shows "balanced (sem_visit_opt no)"
proof (cases no)
  case None
  show ?thesis unfolding None by (rule balanced_cong[OF _ balanced_Inr]) simp
next
  case (Some n)
  show ?thesis unfolding Some by (rule balanced_cong[of _ "sem_visit n"]) (simp_all add: assms Some)
qed

lemma balanced_each:
  assumes "\<And>x. x \<in> set ns \<Longrightarrow> balanced (sem_visit x)"
  shows "balanced (sem_each ns)"
  using assms
proof (induction ns)
  case Nil
  show ?case by (rule balanced_cong[OF _ balanced_Inr]) simp
next
  case (Cons n ns)
  have "balanced (\<lambda>s. and_then (sem_visit n s) (sem_each ns))"
    by (rule balanced_seq) (simp_all add: Cons)
  then show ?case by (rule balanced_cong[rotated]) simp
qed

lemma balanced_each_opt:
  assumes "\<And>a x. a \<in> set as \<Longrightarrow> x \<in> set_option a \<Longrightarrow> balanced (sem_visit x)"
  shows "balanced (sem_each_opt as)"
  using assms
proof (induction as)
  case Nil
  show ?case by (rule balanced_cong[OF _ balanced_Inr]) simp
next
  case (Cons a as)
  have "balanced (sem_visit_opt a)" by (rule balanced_opt) (rule Cons.prems[of a], simp_all)
  moreover have "balanced (sem_each_opt as)"
  proof (rule Cons.IH)
    fix b x assume "b \<in> set as" "x \<in> set_option b"
    then show "balanced (sem_visit x)" using Cons.prems[of b x] by simp
  qed
  ultimately have "balanced (\<lambda>s. and_then (sem_visit_opt a s) (sem_each_opt as))"
    by (rule balanced_seq)
  then show ?case by (rule balanced_cong[rotated]) simp
qed

lemma balanced_enterScope:
  assumes "balanced f"
  shows "balanced (\<lambda>s. and_then (f (enterScope nm s)) exitScope)"
proof -
  have "balanced (\<lambda>s. and_then (and_then (Inr (enterScope nm s)) f) exitScope)"
    by (rule balanced_bracket[OF assms]) (simp add: entered_enterScope)
  then show ?thesis by simp
qed

lemma balanced_sem_visit: "balanced (sem_visit n)"
proof (induction n)
  case (ProgramNode children)
  show ?case
    by (rule balanced_cong[of _ "sem_each children"]) (simp_all add: balanced_each ProgramNode)
next
  case (FunctionDefinitionNode rt nm ps body)
  have "balanced (\<lambda>s. and_then (and_then (function_header nm ps s) (sem_visit body)) exitScope)"
    by (rule balanced_bracket[OF FunctionDefinitionNode]) (rule entered_function_header)
  then show ?case by (rule balanced_cong[rotated]) (simp add: and_then_assoc)
next
  case (BlockNode statements)
  have "balanced (sem_each statements)" by (rule balanced_each) (rule BlockNode)
  from balanced_enterScope[OF this] show ?case by (rule balanced_cong[rotated]) simp
next
  case (VariableDeclarationNode vt nm val)
  have "balanced (sem_visit_opt val)" by (rule balanced_opt) (rule VariableDeclarationNode)
  with balanced_declare_variable have
    "balanced (\<lambda>s. and_then (declare_variable nm s) (sem_visit_opt val))"
    by (rule balanced_seq)
  then show ?case
    by (rule balanced_cong[rotated]) (cases val; simp add: and_then_def split: sum.splits)
next
  case (AssignmentNode left right)
  have "balanced (sem_visit_opt right)" by (rule balanced_opt) (rule AssignmentNode)
  with balanced_visitIdentifierNode have
    "balanced (\<lambda>s. and_then (visitIdentifierNode left s) (sem_visit_opt right))"
    by (rule balanced_seq)
  then show ?case by (rule balanced_cong[rotated]) simp
next
  case (BinaryOpNode l op r)
  have "balanced (sem_visit_opt l)" "balanced (sem_visit_opt r)"
    by (rule balanced_opt, rule BinaryOpNode, assumption)+
  then have "balanced (\<lambda>s. and_then (sem_visit_opt l s) (sem_visit_opt r))"
    by (rule balanced_seq)
  then show ?case by (rule balanced_cong[rotated]) simp
next
  case (NumberNode t)
  show ?case by (rule balanced_cong[OF _ balanced_Inr]) simp
next
  case (IdentifierNode t)
  show ?case by (rule balanced_cong[OF _ balanced_visitIdentifierNode]) simp
next
  case (StringLiteralNode t)
  show ?case by (rule balanced_cong[OF _ balanced_Inr]) simp
next
  case (FunctionCallNode nm args)
  have "balanced (sem_each_opt args)" by (rule balanced_each_opt) (rule FunctionCallNode)
  with balanced_visitIdentifierNode have
    "balanced (\<lambda>s. and_then (visitIdentifierNode nm s) (sem_each_opt args))"
    by (rule balanced_seq)
  with balanced_check_callee have
    "balanced (\<lambda>s. and_then (check_callee nm s)
        (\<lambda>s. and_then (visitIdentifierNode nm s) (sem_each_opt args)))"
    by (rule balanced_seq)
  then show ?case by (rule balanced_cong[rotated]) simp
next
  case (IfStatementNode c ib eb)
  have c: "balanced (sem_visit_opt c)" by (rule balanced_opt) (rule IfStatementNode)
  have e: "balanced (sem_visit_opt eb)" by (rule balanced_opt) (rule IfStatementNode)
  have "balanced (\<lambda>s. and_then (sem_visit ib s) (sem_visit_opt eb))"
    by (rule balanced_seq[OF IfStatementNode(2) e])
  with c have "balanced (\<lambda>s. and_then (sem_visit_opt c s)
        (\<lambda>s. and_then (sem_visit ib s) (sem_visit_opt eb)))"
    by (rule balanced_seq)
  then show ?case
    by (rule balanced_cong[rotated])
       (cases eb; simp add: and_then_def split: sum.splits)
next
  case (ForLoopNode i c inc b)
  have i: "balanced (sem_visit_opt i)" by (rule balanced_opt) (rule ForLoopNode)
  have c: "balanced (sem_visit_opt c)" by (rule balanced_opt) (rule ForLoopNode)
  have n: "balanced (sem_visit_opt inc)" by (rule balanced_opt) (rule ForLoopNode)
  have "balanced (\<lambda>s. and_then (sem_visit_opt inc s) (sem_visit b))"
    by (rule balanced_seq[OF n ForLoopNode(4)])
  with c have "balanced (\<lambda>s. and_then (sem_visit_opt c s)
        (\<lambda>s. and_then (sem_visit_opt inc s) (sem_visit b)))"
    by (rule balanced_seq)
  with i have "balanced (\<lambda>s. and_then (sem_visit_opt i s) (\<lambda>s. and_then (sem_visit_opt c s)
        (\<lambda>s. and_then (sem_visit_opt inc s) (sem_visit b))))"
    by (rule balanced_seq)
  from balanced_enterScope[OF this] show ?case
    by (rule balanced_cong[rotated]) (simp add: and_then_assoc)
next
  case (ReturnStatementNode v)
  have "balanced (sem_visit_opt v)" by (rule balanced_opt) (rule ReturnStatementNode)
  then show ?case by (rule balanced_cong[rotated]) simp
qed

subsection \<open>Parent chains\<close>

text \<open>\<open>reaches scs i j\<close>: the table \<open>j\<close> is the table \<open>i\<close> or one of its ancestors.\<close>

inductive reaches :: "scope list \<Rightarrow> nat \<Rightarrow> nat \<Rightarrow> bool" for scs :: "scope list" where
  reaches_self: "reaches scs i i"
| reaches_parent: "parent (scs ! i) = Some p \<Longrightarrow> reaches scs p j \<Longrightarrow> reaches scs i j"

lemma tree_ok_parent:
  assumes "tree_ok scs" "i < length scs" "parent (scs ! i) = Some p"
  shows "p < i"
proof (cases "i = 0")
  case True
  with assms show ?thesis by (simp add: tree_ok_def)
next
  case False
  with assms show ?thesis by (auto simp: tree_ok_def)
qed

lemma tree_ok_reaches_root:
  assumes "tree_ok scs"
  shows "i < length scs \<Longrightarrow> reaches scs i 0"
proof (induction i rule: less_induct)
  case (less i)
  show ?case
  proof (cases "i = 0")
    case True
    then show ?thesis by (simp add: reaches_self)
  next
    case False
    with assms less.prems obtain p where p: "p < i" "parent (scs ! i) = Some p"
      by (auto simp: tree_ok_def)
    with less have "reaches scs p 0" by simp
    with p show ?thesis by (auto intro: reaches_parent)
  qed
qed

lemma reaches_le:
  assumes "tree_ok scs"
  shows "reaches scs i j \<Longrightarrow> i < length scs \<Longrightarrow> j \<le> i"
proof (induction rule: reaches.induct)
  case (reaches_self i)
  then show ?case by simp
next
  case (reaches_parent i p j)
  from tree_ok_parent[OF assms reaches_parent.prems reaches_parent.hyps(1)] have "p < i" .
  with reaches_parent show ?case by simp
qed

lemma reaches_cases_parent:
  "reaches scs i j \<Longrightarrow> i \<noteq> j \<Longrightarrow> \<exists>p. parent (scs ! i) = Some p \<and> reaches scs p j"
  by (erule reaches.cases) auto

lemma symbols_get_own:
  "nm \<notin> set object_prototype_keys \<Longrightarrow>
   (symbols_get syms nm = None) = (map_of syms nm = None)"
  by (simp add: symbols_get_def split: option.splits)

lemma lookup_resolves_iff:
  assumes "tree_ok scs" "nm \<notin> set object_prototype_keys"
  shows "T < length scs \<Longrightarrow>
         (lookup scs T nm \<noteq> None) = (\<exists>j. reaches scs T j \<and> map_of (symbols (scs ! j)) nm \<noteq> None)"
proof (induction T rule: less_induct)
  case (less T)
  show ?case
  proof (cases "map_of (symbols (scs ! T)) nm = None")
    case False
    then have "lookup scs T nm \<noteq> None"
      by (subst lookup.simps) (auto simp: symbols_get_def split: option.splits)
    moreover have "\<exists>j. reaches scs T j \<and> map_of (symbols (scs ! j)) nm \<noteq> None"
      using False reaches_self by blast
    ultimately show ?thesis by simp
  next
    case True
    then have g: "symbols_get (symbols (scs ! T)) nm = None"
      using assms(2) by (simp add: symbols_get_own)
    show ?thesis
    proof (cases "parent (scs ! T)")
      case None
      then have "lookup scs T nm = None"
        using g by (subst lookup.simps) simp
      moreover have "\<not> (\<exists>j. reaches scs T j \<and> map_of (symbols (scs ! j)) nm \<noteq> None)"
      proof
        assume "\<exists>j. reaches scs T j \<and> map_of (symbols (scs ! j)) nm \<noteq> None"
        then obtain j where j: "reaches scs T j" "map_of (symbols (scs ! j)) nm \<noteq> None" by blast
        with True have "T \<noteq> j" by auto
        from reaches_cases_parent[OF j(1) this] None show False by simp
      qed
      ultimately show ?thesis by simp
    next
      case (Some p)
      from tree_ok_parent[OF assms(1) less.prems Some] have p: "p < T" .
      have l: "lookup scs T nm = lookup scs p nm"
        using g Some p by (subst lookup.simps) simp
      have ih: "(lookup scs p nm \<noteq> None) =
                (\<exists>j. reaches scs p j \<and> map_of (symbols (scs ! j)) nm \<noteq> None)"
        using less.IH[OF p] p less.prems by simp
      have "(\<exists>j. reaches scs T j \<and> map_of (symbols (scs ! j)) nm \<noteq> None) =
            (\<exists>j. reaches scs p j \<and> map_of (symbols (scs ! j)) nm \<noteq> None)"
      proof
        assume "\<exists>j. reaches scs T j \<and> map_of (symbols (scs ! j)) nm \<noteq> None"
        then obtain j where j: "reaches scs T j" "map_of (symbols (scs ! j)) nm \<noteq> None" by blast
        with True have "T \<noteq> j" by auto
        from reaches_cases_parent[OF j(1) this] Some have "reaches scs p j" by simp
        with j show "\<exists>j. reaches scs p j \<and> map_of (symbols (scs ! j)) nm \<noteq> None" by blast
      next
        assume "\<exists>j. reaches scs p j \<and> map_of (symbols (scs ! j)) nm \<noteq> None"
        then obtain j where j: "reaches scs p j" "map_of (symbols (scs ! j)) nm \<noteq> None" by blast
        from reaches_parent[OF Some j(1)] j(2)
        show "\<exists>j. reaches scs T j \<and> map_of (symbols (scs ! j)) nm \<noteq> None" by blast
      qed
      with l ih show ?thesis by simp
    qed
  qed
qed

subsection \<open>Evaluation\<close>

lemmas sem_eval = analyze_def initial_astate_def function_header_def declare_variable_def
  check_callee_def visitIdentifierNode_def define_current_def lookup_current_def
  define_at_def define_symbol_def symbols_get_def object_prototype_keys_def
  enterScope_def exitScope_def sem_error_def globalScope_def lookup.simps tok_def Let_def

definition example_main :: node where
  "example_main =
     ProgramNode
       [FunctionDefinitionNode (js ''int'') (tok IDENTIFIER ''main'' 1 5) []
          (BlockNode
             [VariableDeclarationNode (js ''int'') (tok IDENTIFIER ''x'' 1 18)
                (Some (NumberNode (tok INT_LIT ''5'' 1 22))),
              ReturnStatementNode (Some (IdentifierNode (tok IDENTIFIER ''x'' 1 32)))])]"

lemma analyze_example_main:
  "analyze example_main =
     Inr \<lparr>scopes =
            [\<lparr>name = js ''global'', parent = None,
              symbols = [(js ''printf'', \<lparr>stype = js ''function'', sparams = []\<rparr>),
                         (js ''main'', \<lparr>stype = js ''function'', sparams = []\<rparr>)]\<rparr>,
             \<lparr>name = js ''main'', parent = Some 0, symbols = []\<rparr>,
             \<lparr>name = js ''block'', parent = Some 1,
              symbols = [(js ''x'', \<lparr>stype = js ''variable'', sparams = []\<rparr>)]\<rparr>],
          currentScope = Some 0, errors = []\<rparr>"
  by (simp add: example_main_def sem_eval)

subsection \<open>Balanced scopes\<close>

text \<open>
  Claim C10. Every visit, from a state whose tables form a tree and whose cursor is on
  one of them, returns without throwing with the cursor where it was: what
  \<open>enterScope\<close> has pushed, \<open>exitScope\<close> has left again. So \<open>analyze\<close> always returns,
  with the cursor back on the global scope, which is the first table of the list, is
  named \<open>global\<close> and has no parent; and from every table of the list the chain of
  parents reaches the global scope.
\<close>

theorem scopes_balanced:
  "(\<forall>n s. tree_ok (scopes s) \<and> cur_ok s \<longrightarrow>
       (\<exists>s'. sem_visit n s = Inr s' \<and> currentScope s' = currentScope s)) \<and>
   (\<exists>s. analyze ast = Inr s \<and> currentScope s = Some globalScope \<and>
        name (scopes s ! globalScope) = js ''global'' \<and>
        parent (scopes s ! globalScope) = None \<and>
        (\<forall>i<length (scopes s). reaches (scopes s) i globalScope))"
proof -
  have 1: "\<forall>n s. tree_ok (scopes s) \<and> cur_ok s \<longrightarrow>
       (\<exists>s'. sem_visit n s = Inr s' \<and> currentScope s' = currentScope s)"
    using balanced_sem_visit unfolding balanced_def by blast
  have i: "tree_ok (scopes initial_astate)" "cur_ok initial_astate"
    by (simp_all add: initial_astate_def tree_ok_def cur_ok_def globalScope_def)
  with balanced_sem_visit[of ast] obtain s where s: "sem_visit ast initial_astate = Inr s"
    "currentScope s = currentScope initial_astate" "tree_ok (scopes s)"
    "same_shape initial_astate s"
    unfolding balanced_def by blast
  have "name (scopes s ! 0) = js ''global''"
    using s(4) by (simp add: same_shape_def initial_astate_def)
  moreover have "parent (scopes s ! 0) = None" using s(3) by (simp add: tree_ok_def)
  moreover have "\<forall>i<length (scopes s). reaches (scopes s) i 0"
    using tree_ok_reaches_root[OF s(3)] by blast
  ultimately show ?thesis
    using 1 s(1,2) by (simp add: analyze_def globalScope_def initial_astate_def)
qed

theorem scopes_balanced_witness:
  "\<exists>s. analyze example_main = Inr s \<and> currentScope s = Some globalScope \<and>
       length (scopes s) = 3 \<and> reaches (scopes s) 2 globalScope"
proof -
  from scopes_balanced[of example_main] obtain s where
    s: "analyze example_main = Inr s" "currentScope s = Some globalScope"
       "\<forall>i<length (scopes s). reaches (scopes s) i globalScope"
    by blast
  from s(1) have "length (scopes s) = 3" by (auto simp: analyze_example_main)
  with s show ?thesis by auto
qed


subsection \<open>Function definitions\<close>

text \<open>
  A \<open>FunctionDefinitionNode\<close> is visited in any state of the analyzer, whatever scope
  the cursor is in. The statements before the visit of the body never throw and leave a
  state \<open>s1\<close> from which the body is visited and the scope then left. In \<open>s1\<close>: the
  global table is the result of \<open>define(name, 'function', params)\<close> on the global table,
  and no other table that existed has changed, so the definition goes to the global
  scope and not to the current one; one error \<open>Function '<name>' already defined.\<close> has
  been recorded when the read \<open>this.symbols[name]\<close> of the global table returned
  something, and none otherwise; one table has been pushed, named after the function,
  with the scope of the call site as its parent; it is the current scope, and the read
  of each parameter's name returns something in it.
\<close>

lemma function_header_effect:
  assumes "tree_ok (scopes s)" and "cur_ok s"
  shows "\<exists>s1. function_header nm ps s = Inr s1 \<and>
     sem_visit (FunctionDefinitionNode rt nm ps body) s = and_then (sem_visit body s1) exitScope \<and>
     scopes s1 ! globalScope =
       snd (define_symbol (tvalue nm) (js ''function'') ps (scopes s ! globalScope)) \<and>
     symbols_get (symbols (scopes s1 ! globalScope)) (tvalue nm) \<noteq> None \<and>
     (\<forall>i<length (scopes s). i \<noteq> globalScope \<longrightarrow> scopes s1 ! i = scopes s ! i) \<and>
     errors s1 = errors s @
       (if symbols_get (symbols (scopes s ! globalScope)) (tvalue nm) \<noteq> None
        then [\<lparr>message = js ''Semantic Error: Function '' @ [39] @ tvalue nm @ [39] @
                          js '' already defined.'',
               line = tline nm\<rparr>]
        else []) \<and>
     length (scopes s1) = Suc (length (scopes s)) \<and>
     currentScope s1 = Some (length (scopes s)) \<and>
     name (scopes s1 ! length (scopes s)) = tvalue nm \<and>
     parent (scopes s1 ! length (scopes s)) = currentScope s \<and>
     (\<forall>p\<in>set ps. symbols_get (symbols (scopes s1 ! length (scopes s)))
                     (tvalue (paramName p)) \<noteq> None)"
proof -
  from function_header_result[OF assms, of nm ps] obtain s1 where
    r: "function_header nm ps s = Inr s1 \<and>
     length (scopes s1) = Suc (length (scopes s)) \<and>
     scopes s1 ! 0 = snd (define_symbol (tvalue nm) (js ''function'') ps (scopes s ! 0)) \<and>
     (\<forall>i<length (scopes s). 0 < i \<longrightarrow> scopes s1 ! i = scopes s ! i) \<and>
     errors s1 = errors s @
       (if symbols_get (symbols (scopes s ! 0)) (tvalue nm) \<noteq> None
        then [\<lparr>message = js ''Semantic Error: Function '' @ [39] @ tvalue nm @ [39] @
                          js '' already defined.'',
               line = tline nm\<rparr>]
        else []) \<and>
     currentScope s1 = Some (length (scopes s)) \<and>
     name (scopes s1 ! length (scopes s)) = tvalue nm \<and>
     parent (scopes s1 ! length (scopes s)) = currentScope s \<and>
     (\<forall>p\<in>set ps. symbols_get (symbols (scopes s1 ! length (scopes s)))
                     (tvalue (paramName p)) \<noteq> None)"
    by blast
  then have v: "sem_visit (FunctionDefinitionNode rt nm ps body) s =
                and_then (sem_visit body s1) exitScope"
    by simp
  show ?thesis
    by (rule exI[of _ s1]) (use r v in \<open>simp add: globalScope_def define_symbol_get\<close>)
qed

lemma function_header_example:
  "function_header (tok IDENTIFIER ''f'' 1 5) [ParamNode (js ''int'') (tok IDENTIFIER ''n'' 1 11)]
     (enterScope (js ''block'') initial_astate) =
   Inr \<lparr>scopes =
          [\<lparr>name = js ''global'', parent = None,
            symbols = [(js ''printf'', \<lparr>stype = js ''function'', sparams = []\<rparr>),
                       (js ''f'', \<lparr>stype = js ''function'',
                           sparams = [ParamNode (js ''int'') (tok IDENTIFIER ''n'' 1 11)]\<rparr>)]\<rparr>,
           \<lparr>name = js ''block'', parent = Some 0, symbols = []\<rparr>,
           \<lparr>name = js ''f'', parent = Some 1,
            symbols = [(js ''n'', \<lparr>stype = js ''int'', sparams = []\<rparr>)]\<rparr>],
        currentScope = Some 2, errors = []\<rparr>"
proof -
  have t: "tree_ok (scopes (enterScope (js ''block'') initial_astate))"
    by (simp add: tree_ok_def enterScope_def initial_astate_def globalScope_def less_Suc_eq)
  have c: "cur_ok (enterScope (js ''block'') initial_astate)"
    by (simp add: cur_ok_def enterScope_def initial_astate_def)
  from function_header_effect[OF t c,
      of "tok IDENTIFIER ''f'' 1 5" "[ParamNode (js ''int'') (tok IDENTIFIER ''n'' 1 11)]"]
  show ?thesis by (simp add: sem_eval)
qed

text \<open>For the names that are not inherited from \<open>Object.prototype\<close>, what the read
  returns is an entry of the table itself: the function is then defined in the global
  table and each such parameter in the table of the function.\<close>

lemma symbols_get_own_name:
  "nm \<notin> set object_prototype_keys \<Longrightarrow>
     (symbols_get syms nm \<noteq> None) = (map_of syms nm \<noteq> None)"
  by (simp add: symbols_get_def split: option.splits)

lemma function_header_stores_own_names:
  assumes "tree_ok (scopes s)" and "cur_ok s"
    and "tvalue nm \<notin> set object_prototype_keys"
  shows "\<exists>s1. function_header nm ps s = Inr s1 \<and>
     map_of (symbols (scopes s1 ! globalScope)) (tvalue nm) \<noteq> None \<and>
     errors s1 = errors s @
       (if map_of (symbols (scopes s ! globalScope)) (tvalue nm) \<noteq> None
        then [\<lparr>message = js ''Semantic Error: Function '' @ [39] @ tvalue nm @ [39] @
                          js '' already defined.'',
               line = tline nm\<rparr>]
        else []) \<and>
     (\<forall>p\<in>set ps. tvalue (paramName p) \<notin> set object_prototype_keys \<longrightarrow>
        map_of (symbols (scopes s1 ! length (scopes s))) (tvalue (paramName p)) \<noteq> None)"
proof -
  from function_header_effect[OF assms(1,2), of nm ps] obtain s1 where
    r: "function_header nm ps s = Inr s1"
      "symbols_get (symbols (scopes s1 ! globalScope)) (tvalue nm) \<noteq> None"
      "errors s1 = errors s @
       (if symbols_get (symbols (scopes s ! globalScope)) (tvalue nm) \<noteq> None
        then [\<lparr>message = js ''Semantic Error: Function '' @ [39] @ tvalue nm @ [39] @
                          js '' already defined.'',
               line = tline nm\<rparr>]
        else [])"
      "\<forall>p\<in>set ps. symbols_get (symbols (scopes s1 ! length (scopes s)))
                     (tvalue (paramName p)) \<noteq> None"
    by blast
  have g: "map_of (symbols (scopes s1 ! globalScope)) (tvalue nm) \<noteq> None"
    using r(2) symbols_get_own_name[OF assms(3)] by blast
  have e: "(symbols_get (symbols (scopes s ! globalScope)) (tvalue nm) \<noteq> None) =
           (map_of (symbols (scopes s ! globalScope)) (tvalue nm) \<noteq> None)"
    by (rule symbols_get_own_name[OF assms(3)])
  have p: "\<forall>p\<in>set ps. tvalue (paramName p) \<notin> set object_prototype_keys \<longrightarrow>
        map_of (symbols (scopes s1 ! length (scopes s))) (tvalue (paramName p)) \<noteq> None"
    using r(4) symbols_get_own_name by blast
  from r(1) g r(3)[unfolded e] p show ?thesis by blast
qed

definition example_valueOf_tokens :: "token list" where
  "example_valueOf_tokens =
     [tok KEYWORD ''int'' 1 1, tok IDENTIFIER ''valueOf'' 1 5, tok SEPARATOR ''('' 1 12,
      tok KEYWORD ''int'' 1 13, tok IDENTIFIER ''constructor'' 1 17, tok SEPARATOR '')'' 1 28,
      tok SEPARATOR ''{'' 1 30, tok SEPARATOR ''}'' 1 32]"

definition example_valueOf :: node where
  "example_valueOf =
     ProgramNode
       [FunctionDefinitionNode (js ''int'') (tok IDENTIFIER ''valueOf'' 1 5)
          [ParamNode (js ''int'') (tok IDENTIFIER ''constructor'' 1 17)]
          (BlockNode [])]"

lemma example_valueOf_tokenize:
  "tokenize (js ''int valueOf(int constructor) { }'') = Inr example_valueOf_tokens"
  by (simp add: example_valueOf_tokens_def tok_def lexer_eval)

lemma example_valueOf_parse:
  "parse (Suc (Suc (Suc n))) example_valueOf_tokens = Some (Inr (example_valueOf, []))"
  by (simp add: example_valueOf_tokens_def example_valueOf_def parser_eval)

lemma example_valueOf_analyze:
  "analyze example_valueOf =
     Inr \<lparr>scopes =
            [\<lparr>name = js ''global'', parent = None,
              symbols = [(js ''printf'', \<lparr>stype = js ''function'', sparams = []\<rparr>)]\<rparr>,
             \<lparr>name = js ''valueOf'', parent = Some 0, symbols = []\<rparr>,
             \<lparr>name = js ''block'', parent = Some 1, symbols = []\<rparr>],
          currentScope = Some 0,
          errors =
            [\<lparr>message = js ''Semantic Error: Function 'valueOf' already defined.'', line = 1\<rparr>]\<rparr>"
  by (simp add: example_valueOf_def sem_eval)

text \<open>
  Claim C5 asks that the visit of a function definition defines the name of the function
  in the global scope, records the error \<open>Function '<name>' already defined.\<close> when a
  symbol of that name already exists there, and declares each parameter in the scope of
  the function. The definition does go to the global table and not to the current one
  (\<open>function_header_effect\<close>), but \<open>define\<close> tests \<open>this.symbols[name]\<close>, which also finds
  the properties that the table inherits from \<open>Object.prototype\<close>. The text
  \<open>int valueOf(int constructor) { }\<close> is tokenized and parsed without an error. In its
  analysis the error is recorded although the global table holds no symbol \<open>valueOf\<close>,
  the global table still holds \<open>printf\<close> only afterwards, so the function is not
  defined, and the table of the function stays empty, so the parameter is not declared.
\<close>

theorem function_definition_of_inherited_name:
  "tokenize (js ''int valueOf(int constructor) { }'') = Inr example_valueOf_tokens \<and>
   (\<forall>n. parse (Suc (Suc (Suc n))) example_valueOf_tokens =
      Some (Inr (example_valueOf, []))) \<and>
   map_of (symbols (scopes initial_astate ! globalScope)) (js ''valueOf'') = None \<and>
   (\<exists>s. analyze example_valueOf = Inr s \<and>
      map name (scopes s) = [js ''global'', js ''valueOf'', js ''block''] \<and>
      symbols (scopes s ! globalScope) =
        [(js ''printf'', \<lparr>stype = js ''function'', sparams = []\<rparr>)] \<and>
      symbols (scopes s ! 1) = [] \<and>
      map message (errors s) =
        [js ''Semantic Error: Function 'valueOf' already defined.''])"
proof -
  have i: "map_of (symbols (scopes initial_astate ! globalScope)) (js ''valueOf'') = None"
    by (simp add: initial_astate_def globalScope_def)
  from i example_valueOf_tokenize example_valueOf_parse example_valueOf_analyze
  show ?thesis by (simp add: globalScope_def)
qed


subsection \<open>Scoping isolation\<close>

text \<open>A name that \<open>define\<close> accepts is never the name of an inherited property, so an
  identifier that has been declared is never one of these.\<close>

lemma define_symbol_not_inherited:
  "fst (define_symbol nm ty ps sc) \<Longrightarrow> nm \<notin> set object_prototype_keys"
  by (auto simp: define_symbol_def symbols_get_def split: option.splits if_splits)

text \<open>
  In a scope tree, let a name that is not inherited from \<open>Object.prototype\<close> be held by
  the table of the scope \<open>S\<close> and by no other table. Then \<open>lookup\<close> from a scope \<open>T\<close>
  resolves it exactly when \<open>S\<close> is \<open>T\<close> or an ancestor of \<open>T\<close>, that is from \<open>S\<close> and
  from every descendant of \<open>S\<close>; it does not resolve it from a proper ancestor of \<open>S\<close>
  nor from a sibling of \<open>S\<close>. A reference to the identifier with the cursor in \<open>T\<close>
  records nothing in the first case and the error \<open>Undeclared variable '<name>'.\<close> in
  the second.
\<close>

lemma lookup_isolation:
  assumes "tree_ok scs" and "S < length scs" and "T < length scs"
    and "nm \<notin> set object_prototype_keys"
    and "\<forall>i<length scs. (map_of (symbols (scs ! i)) nm \<noteq> None) = (i = S)"
  shows "((lookup scs T nm \<noteq> None) = reaches scs T S) \<and>
         (reaches scs S T \<and> T \<noteq> S \<longrightarrow> lookup scs T nm = None) \<and>
         (parent (scs ! T) = parent (scs ! S) \<and> T \<noteq> S \<longrightarrow> lookup scs T nm = None) \<and>
         (\<forall>s t. scopes s = scs \<and> currentScope s = Some T \<and> tvalue t = nm \<longrightarrow>
            visitIdentifierNode t s =
              Inr (if reaches scs T S then s
                   else sem_error (js ''Undeclared variable '' @ [39] @ nm @ [39] @ js ''.'') t s))"
proof -
  have iff: "(lookup scs T nm \<noteq> None) = reaches scs T S"
  proof -
    have "(\<exists>j. reaches scs T j \<and> map_of (symbols (scs ! j)) nm \<noteq> None) = reaches scs T S"
    proof
      assume "\<exists>j. reaches scs T j \<and> map_of (symbols (scs ! j)) nm \<noteq> None"
      then obtain j where j: "reaches scs T j" "map_of (symbols (scs ! j)) nm \<noteq> None" by blast
      from reaches_le[OF assms(1) j(1) assms(3)] assms(3) have "j < length scs" by simp
      with assms(5) j(2) have "j = S" by blast
      with j show "reaches scs T S" by simp
    next
      assume "reaches scs T S"
      moreover have "map_of (symbols (scs ! S)) nm \<noteq> None" using assms(2,5) by blast
      ultimately show "\<exists>j. reaches scs T j \<and> map_of (symbols (scs ! j)) nm \<noteq> None" by blast
    qed
    with lookup_resolves_iff[OF assms(1,4,3)] show ?thesis by simp
  qed
  have anc: "reaches scs S T \<and> T \<noteq> S \<longrightarrow> lookup scs T nm = None"
  proof
    assume a: "reaches scs S T \<and> T \<noteq> S"
    with reaches_le[OF assms(1) _ assms(2)] have "T < S" by fastforce
    have "\<not> reaches scs T S"
    proof
      assume "reaches scs T S"
      from reaches_le[OF assms(1) this assms(3)] \<open>T < S\<close> show False by simp
    qed
    with iff show "lookup scs T nm = None" by simp
  qed
  have sib: "parent (scs ! T) = parent (scs ! S) \<and> T \<noteq> S \<longrightarrow> lookup scs T nm = None"
  proof
    assume a: "parent (scs ! T) = parent (scs ! S) \<and> T \<noteq> S"
    have "\<not> reaches scs T S"
    proof
      assume r: "reaches scs T S"
      from reaches_cases_parent[OF r] a obtain p where
        p: "parent (scs ! T) = Some p" "reaches scs p S" by blast
      from tree_ok_parent[OF assms(1,3) p(1)] assms(3) have "p < length scs" by simp
      from reaches_le[OF assms(1) p(2) this] have "S \<le> p" .
      moreover from a p(1) have "parent (scs ! S) = Some p" by simp
      from tree_ok_parent[OF assms(1,2) this] have "p < S" .
      ultimately show False by simp
    qed
    with iff show "lookup scs T nm = None" by simp
  qed
  have vis: "\<forall>s t. scopes s = scs \<and> currentScope s = Some T \<and> tvalue t = nm \<longrightarrow>
            visitIdentifierNode t s =
              Inr (if reaches scs T S then s
                   else sem_error (js ''Undeclared variable '' @ [39] @ nm @ [39] @ js ''.'') t s)"
    using iff by (auto simp: visitIdentifierNode_def lookup_current_def)
  from iff anc sib vis show ?thesis by blast
qed

definition example_scopes :: "scope list" where
  "example_scopes =
     [\<lparr>name = js ''global'', parent = None,
       symbols = [(js ''printf'', \<lparr>stype = js ''function'', sparams = []\<rparr>),
                  (js ''main'', \<lparr>stype = js ''function'', sparams = []\<rparr>)]\<rparr>,
      \<lparr>name = js ''main'', parent = Some 0, symbols = []\<rparr>,
      \<lparr>name = js ''block'', parent = Some 1,
       symbols = [(js ''x'', \<lparr>stype = js ''variable'', sparams = []\<rparr>)]\<rparr>,
      \<lparr>name = js ''block'', parent = Some 2, symbols = []\<rparr>,
      \<lparr>name = js ''block'', parent = Some 1, symbols = []\<rparr>]"

lemma lookup_isolation_example:
  "lookup example_scopes 3 (js ''x'') \<noteq> None \<and>
   lookup example_scopes 1 (js ''x'') = None \<and>
   lookup example_scopes 4 (js ''x'') = None"
proof -
  have t: "tree_ok example_scopes"
    by (simp add: tree_ok_def example_scopes_def less_Suc_eq numeral_nat)
  have k: "js ''x'' \<notin> set object_prototype_keys"
    by (simp add: object_prototype_keys_def)
  have o: "\<forall>i<length example_scopes.
             (map_of (symbols (example_scopes ! i)) (js ''x'') \<noteq> None) = (i = 2)"
    by (simp add: example_scopes_def less_Suc_eq numeral_nat)
  have r3: "reaches example_scopes 3 2"
    by (rule reaches_parent[of _ _ 2]) (simp_all add: example_scopes_def reaches_self)
  have r1: "reaches example_scopes 2 1"
    by (rule reaches_parent[of _ _ 1]) (simp_all add: example_scopes_def reaches_self)
  have p4: "parent (example_scopes ! 4) = parent (example_scopes ! 2)"
    by (simp add: example_scopes_def)
  have l: "length example_scopes = 5" by (simp add: example_scopes_def)
  from lookup_isolation[OF t _ _ k o, of 3] r3 l have "lookup example_scopes 3 (js ''x'') \<noteq> None"
    by simp
  moreover from lookup_isolation[OF t _ _ k o, of 1] r1 l have "lookup example_scopes 1 (js ''x'') = None"
    by simp
  moreover from lookup_isolation[OF t _ _ k o, of 4] p4 l have "lookup example_scopes 4 (js ''x'') = None"
    by simp
  ultimately show ?thesis by simp
qed

definition example_toString_tokens :: "token list" where
  "example_toString_tokens =
     [tok KEYWORD ''int'' 1 1, tok IDENTIFIER ''main'' 1 5, tok SEPARATOR ''('' 1 9,
      tok SEPARATOR '')'' 1 10, tok SEPARATOR ''{'' 1 12,
      tok KEYWORD ''if'' 1 14, tok SEPARATOR ''('' 1 17, tok INT_LIT ''1'' 1 18,
      tok SEPARATOR '')'' 1 19, tok SEPARATOR ''{'' 1 21,
      tok KEYWORD ''int'' 1 23, tok IDENTIFIER ''toString'' 1 27, tok SEPARATOR '';'' 1 35,
      tok SEPARATOR ''}'' 1 37,
      tok IDENTIFIER ''toString'' 1 39, tok OPERATOR ''='' 1 48, tok INT_LIT ''1'' 1 50,
      tok SEPARATOR '';'' 1 51, tok SEPARATOR ''}'' 1 53]"

definition example_toString :: node where
  "example_toString =
     ProgramNode
       [FunctionDefinitionNode (js ''int'') (tok IDENTIFIER ''main'' 1 5) []
          (BlockNode
             [IfStatementNode (Some (NumberNode (tok INT_LIT ''1'' 1 18)))
                (BlockNode
                   [VariableDeclarationNode (js ''int'') (tok IDENTIFIER ''toString'' 1 27) None])
                None,
              AssignmentNode (tok IDENTIFIER ''toString'' 1 39)
                (Some (NumberNode (tok INT_LIT ''1'' 1 50)))])]"

lemma example_toString_tokenize:
  "tokenize (js ''int main() { if (1) { int toString; } toString = 1; }'') =
     Inr example_toString_tokens"
  by (simp add: example_toString_tokens_def tok_def lexer_eval)

lemma example_toString_parse:
  "parse (Suc (Suc (Suc (Suc (Suc (Suc n)))))) example_toString_tokens =
     Some (Inr (example_toString, []))"
  by (simp add: example_toString_tokens_def example_toString_def parser_eval)

lemma example_toString_analyze:
  "analyze example_toString =
     Inr \<lparr>scopes =
            [\<lparr>name = js ''global'', parent = None,
              symbols = [(js ''printf'', \<lparr>stype = js ''function'', sparams = []\<rparr>),
                         (js ''main'', \<lparr>stype = js ''function'', sparams = []\<rparr>)]\<rparr>,
             \<lparr>name = js ''main'', parent = Some 0, symbols = []\<rparr>,
             \<lparr>name = js ''block'', parent = Some 1, symbols = []\<rparr>,
             \<lparr>name = js ''block'', parent = Some 2, symbols = []\<rparr>],
          currentScope = Some 0,
          errors =
            [\<lparr>message = js ''Semantic Error: Variable 'toString' already declared.'', line = 1\<rparr>]\<rparr>"
  by (simp add: example_toString_def sem_eval)

text \<open>
  Claim C8 asks that an identifier declared only inside a scope \<open>S\<close> resolves from \<open>S\<close>
  and its descendants and from no ancestor and no sibling of \<open>S\<close>, where a reference to
  it records the error \<open>Undeclared variable\<close>. This holds of the names that are not
  inherited (\<open>lookup_isolation\<close>). \<open>lookup\<close> tests \<open>scope.symbols[name]\<close>, which also finds
  the properties that every table inherits from \<open>Object.prototype\<close>. In the text
  \<open>int main() { if (1) { int toString; } toString = 1; }\<close>, which is tokenized and parsed
  without an error, the identifier is declared in the block of the \<open>if\<close> only, the
  fourth table, and is assigned to in the enclosing block, the third table, an ancestor.
  The \<open>lookup\<close> from the third table resolves it, and the analysis records no
  \<open>Undeclared variable\<close> error: its one error is on the declaration.
\<close>

theorem inherited_name_resolves_in_ancestor:
  "tokenize (js ''int main() { if (1) { int toString; } toString = 1; }'') =
     Inr example_toString_tokens \<and>
   (\<forall>n. parse (Suc (Suc (Suc (Suc (Suc (Suc n)))))) example_toString_tokens =
      Some (Inr (example_toString, []))) \<and>
   (\<exists>s. analyze example_toString = Inr s \<and>
      map name (scopes s) = [js ''global'', js ''main'', js ''block'', js ''block''] \<and>
      map parent (scopes s) = [None, Some 0, Some 1, Some 2] \<and>
      lookup (scopes s) 2 (js ''toString'') = Some Inherited \<and>
      map message (errors s) =
        [js ''Semantic Error: Variable 'toString' already declared.''])"
proof -
  have l: "lookup
     [\<lparr>name = js ''global'', parent = None,
       symbols = [(js ''printf'', \<lparr>stype = js ''function'', sparams = []\<rparr>),
                  (js ''main'', \<lparr>stype = js ''function'', sparams = []\<rparr>)]\<rparr>,
      \<lparr>name = js ''main'', parent = Some 0, symbols = []\<rparr>,
      \<lparr>name = js ''block'', parent = Some 1, symbols = []\<rparr>,
      \<lparr>name = js ''block'', parent = Some 2, symbols = []\<rparr>] 2 (js ''toString'') =
     Some Inherited"
    by (simp add: lookup.simps symbols_get_def object_prototype_keys_def)
  from l example_toString_tokenize example_toString_parse example_toString_analyze
  show ?thesis by simp
qed


subsection \<open>Redeclaration\<close>

definition example_constructor_tokens :: "token list" where
  "example_constructor_tokens =
     [tok KEYWORD ''int'' 1 1, tok IDENTIFIER ''main'' 1 5, tok SEPARATOR ''('' 1 9,
      tok SEPARATOR '')'' 1 10, tok SEPARATOR ''{'' 1 12,
      tok KEYWORD ''int'' 1 14, tok IDENTIFIER ''constructor'' 1 18, tok SEPARATOR '';'' 1 29,
      tok KEYWORD ''int'' 1 31, tok IDENTIFIER ''constructor'' 1 35, tok SEPARATOR '';'' 1 46,
      tok SEPARATOR ''}'' 1 48]"

definition example_constructor :: node where
  "example_constructor =
     ProgramNode
       [FunctionDefinitionNode (js ''int'') (tok IDENTIFIER ''main'' 1 5) []
          (BlockNode
             [VariableDeclarationNode (js ''int'') (tok IDENTIFIER ''constructor'' 1 18) None,
              VariableDeclarationNode (js ''int'') (tok IDENTIFIER ''constructor'' 1 35) None])]"

lemma example_constructor_tokenize:
  "tokenize (js ''int main() { int constructor; int constructor; }'') =
     Inr example_constructor_tokens"
  by (simp add: example_constructor_tokens_def tok_def lexer_eval)

lemma example_constructor_parse:
  "parse (Suc (Suc (Suc (Suc (Suc n))))) example_constructor_tokens =
     Some (Inr (example_constructor, []))"
  by (simp add: example_constructor_tokens_def example_constructor_def parser_eval)

lemma example_constructor_analyze:
  "analyze example_constructor =
     Inr \<lparr>scopes =
            [\<lparr>name = js ''global'', parent = None,
              symbols = [(js ''printf'', \<lparr>stype = js ''function'', sparams = []\<rparr>),
                         (js ''main'', \<lparr>stype = js ''function'', sparams = []\<rparr>)]\<rparr>,
             \<lparr>name = js ''main'', parent = Some 0, symbols = []\<rparr>,
             \<lparr>name = js ''block'', parent = Some 1, symbols = []\<rparr>],
          currentScope = Some 0,
          errors =
            [\<lparr>message = js ''Semantic Error: Variable 'constructor' already declared.'', line = 1\<rparr>,
             \<lparr>message = js ''Semantic Error: Variable 'constructor' already declared.'', line = 1\<rparr>]\<rparr>"
  by (simp add: example_constructor_def sem_eval)

text \<open>
  Claim C7 asks for exactly one error when a name is declared twice in one scope and
  for none when it is declared again in a nested scope. \<open>define\<close> tests
  \<open>this.symbols[name]\<close>, which also finds the properties that the table inherits from
  \<open>Object.prototype\<close>. The text \<open>int main() { int constructor; int constructor; }\<close> is
  tokenized and parsed without an error, and in its analysis both declarations are
  reported, the first one too: two errors where the claim has one.
\<close>

theorem redeclaration_of_inherited_name:
  "tokenize (js ''int main() { int constructor; int constructor; }'') =
     Inr example_constructor_tokens \<and>
   (\<forall>n. parse (Suc (Suc (Suc (Suc (Suc n))))) example_constructor_tokens =
      Some (Inr (example_constructor, []))) \<and>
   (\<exists>s. analyze example_constructor = Inr s \<and>
      map message (errors s) =
        [js ''Semantic Error: Variable 'constructor' already declared.'',
         js ''Semantic Error: Variable 'constructor' already declared.''])"
  using example_constructor_tokenize example_constructor_parse example_constructor_analyze
  by simp

text \<open>For a name that the table does not hold, own or inherited, the behaviour is the one
  the claim describes: the first declaration records nothing and the second records the
  one error, and a declaration in a scope just entered records nothing.\<close>

lemma declare_twice_same_scope:
  assumes "currentScope s = Some c" and "c < length (scopes s)"
    and "symbols_get (symbols (scopes s ! c)) (tvalue t) = None"
    and "tvalue t' = tvalue t"
  shows "\<exists>s1 s2. declare_variable t s = Inr s1 \<and> errors s1 = errors s \<and>
           declare_variable t' s1 = Inr s2 \<and>
           errors s2 = errors s @
             [\<lparr>message = js ''Semantic Error: Variable '' @ [39] @ tvalue t @ [39] @
                          js '' already declared.'',
               line = tline t'\<rparr>]"
  using assms
  by (simp add: declare_variable_def define_current_def define_at_def define_symbol_def
        sem_error_def symbols_get_def split: option.splits)

lemma declare_shadowing_in_nested_scope:
  assumes "tvalue t \<notin> set object_prototype_keys"
  shows "\<exists>s1. declare_variable t (enterScope n s) = Inr s1 \<and> errors s1 = errors s"
  using assms
  by (simp add: declare_variable_def define_current_def define_at_def define_symbol_def
        enterScope_def symbols_get_def)

section \<open>Properties of the three-address code\<close>

text \<open>The generator only ever appends to the code.\<close>

definition code_extends :: "tac_state \<Rightarrow> tac_state \<Rightarrow> bool" where
  "code_extends s s' \<longleftrightarrow> (\<exists>ext. code s' = code s @ ext)"

lemma ext_refl: "code_extends s s" by (simp add: code_extends_def)
lemma ext_trans: "code_extends s s' \<Longrightarrow> code_extends s' s'' \<Longrightarrow> code_extends s s''"
  by (auto simp: code_extends_def)
lemma ext_emit: "code_extends s s' \<Longrightarrow> code_extends s (emit op a b r s')"
  by (auto simp: code_extends_def emit_def Let_def)
lemma ext_newTemp: "code_extends s s' \<Longrightarrow> code_extends s (snd (newTemp s'))"
  by (auto simp: code_extends_def newTemp_def)
lemma ext_newLabel: "code_extends s s' \<Longrightarrow> code_extends s (snd (newLabel s'))"
  by (auto simp: code_extends_def newLabel_def)
lemma ext_params: "code_extends s s' \<Longrightarrow> code_extends s (fold (\<lambda>a. emit p a Null Null) xs s')"
  by (induction xs arbitrary: s') (auto intro: ext_emit)

lemma ext_opt:
  assumes "\<And>x s s'. x \<in> set_option no \<Longrightarrow> code_extends s s' \<Longrightarrow> code_extends s (snd (tac_visit x s'))"
    and "code_extends s s'"
  shows "code_extends s (snd (tac_visit_opt no s'))"
  using assms by (cases no) auto

lemma ext_each:
  assumes "\<And>x s s'. x \<in> set ns \<Longrightarrow> code_extends s s' \<Longrightarrow> code_extends s (snd (tac_visit x s'))"
    and "code_extends s s'"
  shows "code_extends s (tac_each ns s')"
  using assms by (induction ns arbitrary: s') auto

lemma ext_map:
  assumes "\<And>a x s s'. a \<in> set as \<Longrightarrow> x \<in> set_option a \<Longrightarrow> code_extends s s' \<Longrightarrow> code_extends s (snd (tac_visit x s'))"
    and "code_extends s s'"
  shows "code_extends s (snd (tac_map as s'))"
  using assms
proof (induction as arbitrary: s')
  case Nil
  then show ?case by simp
next
  case (Cons a as)
  have 1: "code_extends s (snd (tac_visit_opt a s'))"
    using Cons.prems by (intro ext_opt) auto
  have "code_extends s (snd (tac_map as (snd (tac_visit_opt a s'))))"
    using Cons.prems(1) 1 by (intro Cons.IH) auto
  then show ?case by (simp add: case_prod_beta Let_def)
qed

lemma ext_visit: "code_extends s s' \<Longrightarrow> code_extends s (snd (tac_visit n s'))"
proof (induction n arbitrary: s s')
  case (FunctionCallNode name args)
  show ?case
    using FunctionCallNode.prems
    by (simp add: case_prod_beta Let_def)
       (intro ext_emit ext_newTemp ext_params ext_map FunctionCallNode.IH; assumption)
next
  case (IfStatementNode c a b)
  have C: "\<And>s s'. code_extends s s' \<Longrightarrow> code_extends s (snd (tac_visit_opt c s'))"
    by (rule ext_opt[of c]) (auto intro: IfStatementNode.IH(1))
  have A: "\<And>s s'. code_extends s s' \<Longrightarrow> code_extends s (snd (tac_visit a s'))"
    by (rule IfStatementNode.IH(2))
  have B: "\<And>s s' x. b = Some x \<Longrightarrow> code_extends s s' \<Longrightarrow> code_extends s (snd (tac_visit x s'))"
    by (rule IfStatementNode.IH(3)) auto
  show ?case
    using IfStatementNode.prems
    apply (simp add: case_prod_beta Let_def split: option.split)
    apply (intro conjI impI allI ext_emit ext_newLabel A B C; assumption)
    done
next
  case (ForLoopNode i c inc b)
  have I: "\<And>s s'. code_extends s s' \<Longrightarrow> code_extends s (snd (tac_visit_opt i s'))"
    by (rule ext_opt[of i]) (auto intro: ForLoopNode.IH(1))
  have C: "\<And>s s'. code_extends s s' \<Longrightarrow> code_extends s (snd (tac_visit_opt c s'))"
    by (rule ext_opt[of c]) (auto intro: ForLoopNode.IH(2))
  have N: "\<And>s s'. code_extends s s' \<Longrightarrow> code_extends s (snd (tac_visit_opt inc s'))"
    by (rule ext_opt[of inc]) (auto intro: ForLoopNode.IH(3))
  have B: "\<And>s s'. code_extends s s' \<Longrightarrow> code_extends s (snd (tac_visit b s'))"
    by (rule ForLoopNode.IH(4))
  show ?case
    using ForLoopNode.prems
    apply (simp add: case_prod_beta Let_def)
    apply (intro ext_emit ext_newLabel I C N B; assumption)
    done
qed (auto simp: case_prod_beta Let_def split: option.splits
       intro!: ext_emit ext_newTemp ext_newLabel ext_each ext_opt)


lemma ext_visit_opt: "code_extends s s' \<Longrightarrow> code_extends s (snd (tac_visit_opt no s'))"
  by (cases no) (auto intro: ext_visit)

subsection \<open>The instructions of an if-statement\<close>

text \<open>A label declaration is \<open>L\<close>, a numeral and a colon; an unconditional jump is
  \<open>goto L\<close> and a numeral.\<close>

definition is_label_declaration :: "jsstring \<Rightarrow> bool" where
  "is_label_declaration i \<longleftrightarrow>
     (case i of
        [] \<Rightarrow> False
      | c # r \<Rightarrow> c = 76 \<and> 2 \<le> length r \<and> last r = 58 \<and> list_all isDigit (butlast r))"

definition is_unconditional_jump :: "jsstring \<Rightarrow> bool" where
  "is_unconditional_jump i \<longleftrightarrow>
     take 6 i = js ''goto L'' \<and> drop 6 i \<noteq> [] \<and> list_all isDigit (drop 6 i)"

lemma string_of_nat_digits: "string_of_nat k \<noteq> [] \<and> list_all isDigit (string_of_nat k)"
proof (induction k rule: string_of_nat.induct)
  case (1 n)
  show ?case
  proof (cases "n < 10")
    case True
    then show ?thesis by (subst (1 2) string_of_nat.simps) (simp add: isDigit_def)
  next
    case False
    have "n mod 10 < 10" by simp
    then have "isDigit (48 + n mod 10)" unfolding isDigit_def by linarith
    with False "1.IH" show ?thesis by (subst (1 2) string_of_nat.simps) simp
  qed
qed

lemma label_declaration_text [simp]:
  "is_label_declaration (js ''L'' @ string_of_nat k @ js '':'')"
  "\<not> is_unconditional_jump (js ''L'' @ string_of_nat k @ js '':'')"
  using string_of_nat_digits[of k]
  by (auto simp: is_label_declaration_def is_unconditional_jump_def Suc_le_eq
      simp flip: length_greater_0_conv)

lemma unconditional_jump_text [simp]:
  "is_unconditional_jump (js ''goto L'' @ string_of_nat k)"
  "\<not> is_label_declaration (js ''goto L'' @ string_of_nat k)"
  using string_of_nat_digits[of k]
  by (auto simp: is_label_declaration_def is_unconditional_jump_def)

lemma conditional_branch_text [simp]:
  "\<not> is_label_declaration (js ''if_false '' @ x)"
  "\<not> is_unconditional_jump (js ''if_false '' @ x)"
  "\<not> is_label_declaration (js ''if_false:'')"
  "\<not> is_unconditional_jump (js ''if_false:'')"
  by (simp_all add: is_label_declaration_def is_unconditional_jump_def)

text \<open>
  Claim C4. For every if-statement, with or without an else-branch, lowered in any state of
  the generator: the instructions it emits are those of the condition (\<open>C\<close>), one
  conditional branch, those of the if-body (\<open>A\<close>), one unconditional jump to the end
  label, the declaration of the else label, the instructions of the else-body (\<open>B\<close>,
  none when there is no else-branch) and the declaration of the end label. Of the four
  instructions that the statement adds to those of its condition and of its two bodies,
  exactly two are label declarations and exactly one is an unconditional jump, and the
  jump comes right after the last instruction of the if-body and right before the first
  of the two labels. Both labels are allocated whether or not there is an else-branch.
  (\<open>emit\<close> drops the target of the conditional branch, which reads \<open>if_false\<close> and the
  condition.)
\<close>

theorem if_statement_lowering:
  "let (conditionTemp, s1) = tac_visit_opt condition s;
       k = labelCounter s1;
       branch = (if truthy conditionTemp then js ''if_false '' @ template conditionTemp
                 else js ''if_false:'');
       jump = js ''goto L'' @ string_of_nat (k + 1);
       elseLabel = js ''L'' @ string_of_nat k @ js '':'';
       endLabel = js ''L'' @ string_of_nat (k + 1) @ js '':'';
       sA = s1\<lparr>labelCounter := k + 2, code := code s1 @ [branch]\<rparr>;
       s5 = snd (tac_visit ifBody sA);
       sB = s5\<lparr>code := code s5 @ [jump, elseLabel]\<rparr>;
       s8 = (case elseBody of None \<Rightarrow> sB | Some b \<Rightarrow> snd (tac_visit b sB))
   in filter is_label_declaration [branch, jump, elseLabel, endLabel] = [elseLabel, endLabel] \<and>
      filter is_unconditional_jump [branch, jump, elseLabel, endLabel] = [jump] \<and>
      (\<exists>C A B.
        code s1 = code s @ C \<and> code s5 = code sA @ A \<and> code s8 = code sB @ B \<and>
        (elseBody = None \<longrightarrow> B = []) \<and>
        code (snd (tac_visit (IfStatementNode condition ifBody elseBody) s)) =
          code s @ C @ [branch] @ A @ [jump, elseLabel] @ B @ [endLabel] \<and>
        length (filter is_label_declaration (C @ [branch] @ A @ [jump, elseLabel] @ B @ [endLabel])) =
          2 + length (filter is_label_declaration (C @ A @ B)) \<and>
        length (filter is_unconditional_jump (C @ [branch] @ A @ [jump, elseLabel] @ B @ [endLabel])) =
          1 + length (filter is_unconditional_jump (C @ A @ B)))"
proof -
  obtain conditionTemp s1 where c: "tac_visit_opt condition s = (conditionTemp, s1)"
    by (cases "tac_visit_opt condition s")
  define k where "k = labelCounter s1"
  define branch where "branch = (if truthy conditionTemp then js ''if_false '' @ template conditionTemp
                 else js ''if_false:'')"
  define jump where "jump = js ''goto L'' @ string_of_nat (k + 1)"
  define elseLabel where "elseLabel = js ''L'' @ string_of_nat k @ js '':''"
  define endLabel where "endLabel = js ''L'' @ string_of_nat (k + 1) @ js '':''"
  define sA where "sA = s1\<lparr>labelCounter := k + 2, code := code s1 @ [branch]\<rparr>"
  define s5 where "s5 = snd (tac_visit ifBody sA)"
  define sB where "sB = s5\<lparr>code := code s5 @ [jump, elseLabel]\<rparr>"
  define s8 where "s8 = (case elseBody of None \<Rightarrow> sB | Some b \<Rightarrow> snd (tac_visit b sB))"
  have kinds:
    "\<not> is_label_declaration branch" "\<not> is_unconditional_jump branch"
    "\<not> is_label_declaration jump" "is_unconditional_jump jump"
    "is_label_declaration elseLabel" "\<not> is_unconditional_jump elseLabel"
    "is_label_declaration endLabel" "\<not> is_unconditional_jump endLabel"
    unfolding branch_def jump_def elseLabel_def endLabel_def
    using conditional_branch_text label_declaration_text unconditional_jump_text
    by (auto simp del: conditional_branch_text label_declaration_text unconditional_jump_text)
  have "code_extends s s1"
    using ext_visit_opt[OF ext_refl, of s condition] c by simp
  then obtain C where C: "code s1 = code s @ C" by (auto simp: code_extends_def)
  have "code_extends sA s5"
    unfolding s5_def by (rule ext_visit[OF ext_refl])
  then obtain A where A: "code s5 = code sA @ A" by (auto simp: code_extends_def)
  have "code_extends sB s8"
    unfolding s8_def by (cases elseBody) (auto intro: ext_refl ext_visit)
  then obtain B where B: "code s8 = code sB @ B" by (auto simp: code_extends_def)
  have B0: "elseBody = None \<longrightarrow> B = []"
    using B by (auto simp: s8_def)
  have res: "snd (tac_visit (IfStatementNode condition ifBody elseBody) s) =
             s8\<lparr>code := code s8 @ [endLabel]\<rparr>"
    unfolding s8_def sB_def s5_def sA_def branch_def jump_def elseLabel_def endLabel_def k_def
    using c
    by (cases elseBody) (simp_all add: Let_def case_prod_beta newLabel_def emit_def)
  have shape: "code (snd (tac_visit (IfStatementNode condition ifBody elseBody) s)) =
          code s @ C @ [branch] @ A @ [jump, elseLabel] @ B @ [endLabel]"
    unfolding res by (simp add: B sB_def A sA_def C)
  have own: "filter is_label_declaration [branch, jump, elseLabel, endLabel] = [elseLabel, endLabel]"
    "filter is_unconditional_jump [branch, jump, elseLabel, endLabel] = [jump]"
    using kinds by simp_all
  have counts:
    "length (filter is_label_declaration (C @ [branch] @ A @ [jump, elseLabel] @ B @ [endLabel])) =
       2 + length (filter is_label_declaration (C @ A @ B))"
    "length (filter is_unconditional_jump (C @ [branch] @ A @ [jump, elseLabel] @ B @ [endLabel])) =
       1 + length (filter is_unconditional_jump (C @ A @ B))"
    using kinds by simp_all
  from C A B B0 shape counts have
    "\<exists>C A B.
        code s1 = code s @ C \<and> code s5 = code sA @ A \<and> code s8 = code sB @ B \<and>
        (elseBody = None \<longrightarrow> B = []) \<and>
        code (snd (tac_visit (IfStatementNode condition ifBody elseBody) s)) =
          code s @ C @ [branch] @ A @ [jump, elseLabel] @ B @ [endLabel] \<and>
        length (filter is_label_declaration (C @ [branch] @ A @ [jump, elseLabel] @ B @ [endLabel])) =
          2 + length (filter is_label_declaration (C @ A @ B)) \<and>
        length (filter is_unconditional_jump (C @ [branch] @ A @ [jump, elseLabel] @ B @ [endLabel])) =
          1 + length (filter is_unconditional_jump (C @ A @ B))"
    by blast
  with own have
    "filter is_label_declaration [branch, jump, elseLabel, endLabel] = [elseLabel, endLabel] \<and>
     filter is_unconditional_jump [branch, jump, elseLabel, endLabel] = [jump] \<and>
     (\<exists>C A B.
        code s1 = code s @ C \<and> code s5 = code sA @ A \<and> code s8 = code sB @ B \<and>
        (elseBody = None \<longrightarrow> B = []) \<and>
        code (snd (tac_visit (IfStatementNode condition ifBody elseBody) s)) =
          code s @ C @ [branch] @ A @ [jump, elseLabel] @ B @ [endLabel] \<and>
        length (filter is_label_declaration (C @ [branch] @ A @ [jump, elseLabel] @ B @ [endLabel])) =
          2 + length (filter is_label_declaration (C @ A @ B)) \<and>
        length (filter is_unconditional_jump (C @ [branch] @ A @ [jump, elseLabel] @ B @ [endLabel])) =
          1 + length (filter is_unconditional_jump (C @ A @ B)))"
    by blast
  then show ?thesis
    unfolding c Let_def prod.case
    unfolding s8_def[symmetric] sB_def[symmetric] s5_def[symmetric] sA_def[symmetric]
      branch_def[symmetric] jump_def[symmetric] elseLabel_def[symmetric] endLabel_def[symmetric]
      k_def[symmetric] .
qed

theorem if_statement_lowering_witness:
  "code (snd (tac_visit
     (IfStatementNode (Some (IdentifierNode (tok IDENTIFIER ''x'' 1 5)))
        (BlockNode [AssignmentNode (tok IDENTIFIER ''y'' 1 10)
                      (Some (NumberNode (tok INT_LIT ''1'' 1 14)))])
        None)
     \<lparr>tempCounter = 0, labelCounter = 0, code = []\<rparr>)) =
   [js ''if_false x'', js ''y = 1'', js ''goto L1'', js ''L0:'', js ''L1:'']"
  using if_statement_lowering[of "Some (IdentifierNode (tok IDENTIFIER ''x'' 1 5))"
      "\<lparr>tempCounter = 0, labelCounter = 0, code = []\<rparr>"
      "BlockNode [AssignmentNode (tok IDENTIFIER ''y'' 1 10)
                      (Some (NumberNode (tok INT_LIT ''1'' 1 14)))]" None]
  by (simp add: Let_def emit_def newLabel_def tok_def string_of_nat.simps)

end
